theory Spec2Isabelle
  imports Complex_Main
begin

section \<open>JavaScript numbers\<close>

text \<open>
  The estimator of \<^verbatim>\<open>src/app/lib/mle-logic.ts\<close> computes with JavaScript numbers.
  They are modelled as the real numbers extended by the three special values the code
  relies on (\<^verbatim>\<open>Infinity\<close>, \<^verbatim>\<open>-Infinity\<close>, \<^verbatim>\<open>NaN\<close>), which follow IEEE 754 as JavaScript
  implements it. In this section and the next the arithmetic on finite numbers is exact; the
  section on floating-point arithmetic adds the rounding to double precision and the overflow
  to infinity, and gives the estimator for an arbitrary rounding. The sign of zero is not part
  of the model.
\<close>

datatype number = Fin real | PInf | NInf | NaN

fun n_neg :: "number \<Rightarrow> number" where
  "n_neg (Fin a) = Fin (- a)"
| "n_neg PInf = NInf"
| "n_neg NInf = PInf"
| "n_neg NaN = NaN"

fun n_add :: "number \<Rightarrow> number \<Rightarrow> number" where
  "n_add NaN y = NaN"
| "n_add x NaN = NaN"
| "n_add (Fin a) (Fin b) = Fin (a + b)"
| "n_add PInf NInf = NaN"
| "n_add NInf PInf = NaN"
| "n_add PInf y = PInf"
| "n_add x PInf = PInf"
| "n_add NInf y = NInf"
| "n_add x NInf = NInf"

definition n_sub :: "number \<Rightarrow> number \<Rightarrow> number" where
  "n_sub x y = n_add x (n_neg y)"

text \<open>The sign of a number: \<open>Some True\<close> for positive, \<open>Some False\<close> for negative,
  \<open>None\<close> for zero and \<^verbatim>\<open>NaN\<close>.\<close>

fun n_sign :: "number \<Rightarrow> bool option" where
  "n_sign (Fin a) = (if 0 < a then Some True else if a < 0 then Some False else None)"
| "n_sign PInf = Some True"
| "n_sign NInf = Some False"
| "n_sign NaN = None"

fun n_mul :: "number \<Rightarrow> number \<Rightarrow> number" where
  "n_mul NaN y = NaN"
| "n_mul x NaN = NaN"
| "n_mul (Fin a) (Fin b) = Fin (a * b)"
| "n_mul x y =
     (case (n_sign x, n_sign y) of
        (Some s, Some t) \<Rightarrow> if s = t then PInf else NInf
      | _ \<Rightarrow> NaN)"

fun n_div :: "number \<Rightarrow> number \<Rightarrow> number" where
  "n_div NaN y = NaN"
| "n_div x NaN = NaN"
| "n_div (Fin a) (Fin b) =
     (if b \<noteq> 0 then Fin (a / b)
      else if 0 < a then PInf else if a < 0 then NInf else NaN)"
| "n_div (Fin a) y = Fin 0"
| "n_div x (Fin b) =
     (if (n_sign x = Some True) = (0 \<le> b) then PInf else NInf)"
| "n_div x y = NaN"

fun n_exp :: "number \<Rightarrow> number" where
  "n_exp (Fin a) = Fin (exp a)"
| "n_exp PInf = PInf"
| "n_exp NInf = Fin 0"
| "n_exp NaN = NaN"

fun n_log :: "number \<Rightarrow> number" where
  "n_log (Fin a) = (if 0 < a then Fin (ln a) else if a = 0 then NInf else NaN)"
| "n_log PInf = PInf"
| "n_log NInf = NaN"
| "n_log NaN = NaN"

fun n_sqrt :: "number \<Rightarrow> number" where
  "n_sqrt (Fin a) = (if 0 \<le> a then Fin (sqrt a) else NaN)"
| "n_sqrt PInf = PInf"
| "n_sqrt NInf = NaN"
| "n_sqrt NaN = NaN"

text \<open>Comparisons: every comparison with \<^verbatim>\<open>NaN\<close> is false.\<close>

fun n_lt :: "number \<Rightarrow> number \<Rightarrow> bool" where
  "n_lt NaN y = False"
| "n_lt x NaN = False"
| "n_lt (Fin a) (Fin b) = (a < b)"
| "n_lt x PInf = (x \<noteq> PInf)"
| "n_lt NInf y = (y \<noteq> NInf)"
| "n_lt x y = False"

fun n_eq :: "number \<Rightarrow> number \<Rightarrow> bool" where
  "n_eq NaN y = False"
| "n_eq x NaN = False"
| "n_eq x y = (x = y)"

definition n_le :: "number \<Rightarrow> number \<Rightarrow> bool" where
  "n_le x y = (n_lt x y \<or> n_eq x y)"

text \<open>\<^verbatim>\<open>Math.max\<close> and \<^verbatim>\<open>Math.min\<close> return \<^verbatim>\<open>NaN\<close> when an argument is \<^verbatim>\<open>NaN\<close>.\<close>

fun n_max :: "number \<Rightarrow> number \<Rightarrow> number" where
  "n_max NaN y = NaN"
| "n_max x NaN = NaN"
| "n_max x y = (if n_lt x y then y else x)"

fun n_min :: "number \<Rightarrow> number \<Rightarrow> number" where
  "n_min NaN y = NaN"
| "n_min x NaN = NaN"
| "n_min x y = (if n_lt y x then y else x)"

fun isFinite :: "number \<Rightarrow> bool" where
  "isFinite (Fin a) = True"
| "isFinite x = False"

section \<open>The ability estimator (\<^verbatim>\<open>src/app/lib/mle-logic.ts\<close>)\<close>

text \<open>An evaluation \<^verbatim>\<open>{ level: number; predictedMaxScore: number }\<close>; both fields are
  finite numbers (integers in the database).\<close>

record evaluation =
  level :: real
  predictedMaxScore :: real

definition sigmoid :: "number \<Rightarrow> number" where
  "sigmoid z = n_div (Fin 1) (n_add (Fin 1) (n_exp (n_neg z)))"

text \<open>The body of the \<^verbatim>\<open>for\<close> loop of \<^verbatim>\<open>logLikelihood\<close>: the floored likelihood of one
  evaluation, with \<^verbatim>\<open>item_alpha = 1.0\<close>, \<^verbatim>\<open>item_beta = 0.0\<close> and \<^verbatim>\<open>epsilon = 1e-10\<close>.\<close>

definition epsilon :: real where
  "epsilon = 1 / 10 ^ 10"

definition itemLikelihood :: "number \<Rightarrow> evaluation \<Rightarrow> number" where
  "itemLikelihood ability evalItem =
     (let k = Fin (level evalItem);
          n = Fin (predictedMaxScore evalItem);
          prob_y = sigmoid (n_add (n_mul (Fin 1) (n_sub ability k)) (Fin 0))
      in if n_eq k n then prob_y
         else n_sub prob_y
                (sigmoid (n_add (n_mul (Fin 1) (n_sub ability (n_add k (Fin 1)))) (Fin 0))))"

definition logLikelihood :: "number \<Rightarrow> evaluation list \<Rightarrow> number" where
  "logLikelihood ability evaluations =
     foldl (\<lambda>acc evalItem. n_add acc (n_log (n_max (itemLikelihood ability evalItem) (Fin epsilon))))
       (Fin 0) evaluations"

definition logPrior :: "number \<Rightarrow> number \<Rightarrow> number \<Rightarrow> number \<Rightarrow> number \<Rightarrow> number" where
  "logPrior ability ALPHA BETA_PARAM xMin xMax =
     (let x = ability in
      if \<not> (n_le xMin x \<and> n_le x xMax) then NInf
      else if n_eq x xMin \<or> n_eq x xMax then NInf
      else n_add
             (n_sub (n_add (n_log (Fin 6)) (n_log (n_sub x xMin))) (n_log (n_sub xMax xMin)))
             (n_mul (n_sub BETA_PARAM (Fin 1))
                (n_sub (n_log (n_sub xMax x)) (n_log (n_sub xMax xMin)))))"

definition logPosterior ::
  "number \<Rightarrow> evaluation list \<Rightarrow> number \<Rightarrow> number \<Rightarrow> number \<Rightarrow> number \<Rightarrow> number" where
  "logPosterior ability evaluations ALPHA BETA_PARAM xMin xMax =
     n_add (logLikelihood ability evaluations) (logPrior ability ALPHA BETA_PARAM xMin xMax)"

record map_result =
  bestAbility :: number
  abilities :: "number list"
  logPriors :: "number list"
  logLikelihoods :: "number list"
  logPosteriors :: "number list"

text \<open>The grid: \<^verbatim>\<open>for (let i = 0; i <= gridPoints; i++)\<close> pushes
  \<^verbatim>\<open>xMin + (i / gridPoints) * (xMax - xMin)\<close>. \<open>gridPoints\<close> is a natural number; for
  \<open>gridPoints = 0\<close> the only point is \<^verbatim>\<open>0 / 0 = NaN\<close>, as in JavaScript.\<close>

definition gridAbilities :: "number \<Rightarrow> number \<Rightarrow> nat \<Rightarrow> number list" where
  "gridAbilities xMin xMax gridPoints =
     map (\<lambda>i. n_add xMin (n_mul (n_div (Fin (real i)) (Fin (real gridPoints))) (n_sub xMax xMin)))
       [0 ..< Suc gridPoints]"

text \<open>\<^verbatim>\<open>validIndices\<close>: the pairs \<^verbatim>\<open>{ value, index }\<close> with a finite value, as pairs.\<close>

definition validIndices :: "number list \<Rightarrow> (number \<times> nat) list" where
  "validIndices lps = filter (\<lambda>item. isFinite (fst item)) (zip lps [0 ..< length lps])"

text \<open>\<^verbatim>\<open>reduce((max, current) => (current.value > max.value ? current : max))\<close> on a
  non-empty array: the first element is the initial accumulator.\<close>

definition maxItem :: "(number \<times> nat) list \<Rightarrow> number \<times> nat" where
  "maxItem items =
     foldl (\<lambda>mx current. if n_lt (fst mx) (fst current) then current else mx) (hd items) (tl items)"

definition estimateAbilityByGridSearchMAP ::
  "evaluation list \<Rightarrow> number \<Rightarrow> number \<Rightarrow> number \<Rightarrow> number \<Rightarrow> nat \<Rightarrow> map_result" where
  "estimateAbilityByGridSearchMAP evaluations ALPHA BETA_PARAM xMin xMax gridPoints =
     (if length evaluations = 0 then
        \<lparr> bestAbility =
            n_add xMin (n_div (n_mul (n_sub xMax xMin) (n_sub ALPHA (Fin 1)))
                              (n_sub (n_add ALPHA BETA_PARAM) (Fin 2))),
          abilities = [], logPriors = [], logLikelihoods = [], logPosteriors = [] \<rparr>
      else
        let abs = gridAbilities xMin xMax gridPoints;
            lpr = map (\<lambda>ab. logPrior ab ALPHA BETA_PARAM xMin xMax) abs;
            lls = map (\<lambda>ab. logLikelihood ab evaluations) abs;
            lps = map (\<lambda>(ll, i). n_add ll (lpr ! i)) (zip lls [0 ..< length lls]);
            valid = validIndices lps
        in if length valid = 0 then
             \<lparr> bestAbility = xMin,
               abilities = abs, logPriors = lpr, logLikelihoods = lls, logPosteriors = lps \<rparr>
           else
             \<lparr> bestAbility = abs ! snd (maxItem valid),
               abilities = abs, logPriors = lpr, logLikelihoods = lls, logPosteriors = lps \<rparr>)"

text \<open>The interval \<^verbatim>\<open>{ lower, upper }\<close> is returned as a pair.\<close>

definition calculateBayesianConfidenceInterval ::
  "number \<Rightarrow> evaluation list \<Rightarrow> number \<Rightarrow> number \<Rightarrow> number \<Rightarrow> number \<Rightarrow> number \<times> number" where
  "calculateBayesianConfidenceInterval estimatedAbility evaluations ALPHA BETA_PARAM xMin xMax =
     (if length evaluations = 0 then (xMin, xMax)
      else
        let h = Fin (1 / 10000);
            lpAtPeak = logPosterior estimatedAbility evaluations ALPHA BETA_PARAM xMin xMax;
            lpPlusH = logPosterior (n_add estimatedAbility h) evaluations ALPHA BETA_PARAM xMin xMax;
            lpMinusH = logPosterior (n_sub estimatedAbility h) evaluations ALPHA BETA_PARAM xMin xMax;
            secondDerivative =
              n_div (n_add (n_sub lpPlusH (n_mul (Fin 2) lpAtPeak)) lpMinusH) (n_mul h h);
            information = n_neg secondDerivative
        in if n_le information (Fin 0) \<or> \<not> isFinite information then (xMin, xMax)
           else
             let standardError = n_div (Fin 1) (n_sqrt information);
                 zScore = Fin (196 / 100);
                 marginOfError = n_mul zScore standardError;
                 lower = n_sub estimatedAbility marginOfError;
                 upper = n_add estimatedAbility marginOfError
             in (n_max xMin lower, n_min xMax upper))"

section \<open>Retry with backoff (\<^verbatim>\<open>retryWithBackoff\<close> of the batch-processor library)\<close>

subsection \<open>Errors and their messages\<close>

text \<open>
  A thrown value \<open>e\<close> is read through \<^verbatim>\<open>e?.status\<close> and \<^verbatim>\<open>e?.message\<close> only. \<open>status\<close> is
  a numeric status or absent; \<open>message\<close> is a string, empty when absent
  (\<^verbatim>\<open>e?.message || ''\<close>).
\<close>

record js_error =
  status :: "int option"
  message :: string

datatype 'a settled = Resolved 'a | Rejected js_error

definition is_digit :: "char \<Rightarrow> bool" where
  "is_digit c = (c \<in> set ''0123456789'')"

definition digit_value :: "char \<Rightarrow> nat" where
  "digit_value c = of_char c - 48"

text \<open>\<^verbatim>\<open>parseInt(digits, 10)\<close> on a string of decimal digits.\<close>

definition parseInt :: "string \<Rightarrow> nat" where
  "parseInt ds = foldl (\<lambda>acc c. 10 * acc + digit_value c) 0 ds"

definition to_lower :: "char \<Rightarrow> char" where
  "to_lower c =
     (case map_of (zip ''ABCDEFGHIJKLMNOPQRSTUVWXYZ'' ''abcdefghijklmnopqrstuvwxyz'') c of
        Some l \<Rightarrow> l
      | None \<Rightarrow> c)"

text \<open>\<open>match_ci p s\<close>: the rest of \<open>s\<close> after the prefix \<open>p\<close>, letters compared without
  case (the \<^verbatim>\<open>i\<close> flag).\<close>

fun match_ci :: "string \<Rightarrow> string \<Rightarrow> string option" where
  "match_ci [] s = Some s"
| "match_ci (p # ps) [] = None"
| "match_ci (p # ps) (c # cs) = (if to_lower p = to_lower c then match_ci ps cs else None)"

definition skip_quote :: "string \<Rightarrow> string" where
  "skip_quote s = (case s of [] \<Rightarrow> [] | c # cs \<Rightarrow> if c = CHR 0x22 then cs else s)"

text \<open>The regular expression \<^verbatim>\<open>/retryDelay"?:"?(\d+)(s|sec)/i\<close> matched at the start of a
  string; the result is \<^verbatim>\<open>parseInt\<close> of the first group.\<close>

definition match_retryDelay_here :: "string \<Rightarrow> nat option" where
  "match_retryDelay_here s =
     (case match_ci ''retryDelay'' s of
        None \<Rightarrow> None
      | Some r1 \<Rightarrow>
          (case skip_quote r1 of
             [] \<Rightarrow> None
           | c # r2 \<Rightarrow>
               if c \<noteq> CHR '':'' then None
               else
                 let r3 = skip_quote r2;
                     ds = takeWhile is_digit r3;
                     r4 = dropWhile is_digit r3
                 in if ds = [] then None
                    else (case r4 of
                            [] \<Rightarrow> None
                          | u # r5 \<Rightarrow> if to_lower u = CHR ''s'' then Some (parseInt ds) else None)))"

text \<open>\<^verbatim>\<open>msg.match(...)\<close>: the leftmost match.\<close>

fun match_retryDelay :: "string \<Rightarrow> nat option" where
  "match_retryDelay [] = match_retryDelay_here []"
| "match_retryDelay (c # cs) =
     (case match_retryDelay_here (c # cs) of
        Some sec \<Rightarrow> Some sec
      | None \<Rightarrow> match_retryDelay cs)"

definition parseRetryDelayMs :: "string \<Rightarrow> nat option" where
  "parseRetryDelayMs msg =
     (if msg = [] then None
      else (case match_retryDelay msg of
              Some sec \<Rightarrow> Some (sec * 1000)
            | None \<Rightarrow> None))"

text \<open>\<^verbatim>\<open>msg.match(/\[(\d{3}) /)?.[1]\<close>, read as a number (the code compares it with
  \<^verbatim>\<open>==\<close> and converts it with \<^verbatim>\<open>Number\<close>).\<close>

fun match_status :: "string \<Rightarrow> nat option" where
  "match_status (b # d1 # d2 # d3 # sp # rest) =
     (if b = CHR ''['' \<and> is_digit d1 \<and> is_digit d2 \<and> is_digit d3 \<and> sp = CHR '' ''
      then Some (parseInt [d1, d2, d3])
      else match_status (d1 # d2 # d3 # sp # rest))"
| "match_status s = None"

text \<open>\<^verbatim>\<open>msg.includes(sub)\<close>.\<close>

fun includes_str :: "string \<Rightarrow> string \<Rightarrow> bool" where
  "includes_str sub [] = (sub = [])"
| "includes_str sub (c # cs) = (take (length sub) (c # cs) = sub \<or> includes_str sub cs)"

text \<open>\<^verbatim>\<open>e?.status || (typeof msg === 'string' && msg.match(/\[(\d{3}) /)?.[1])\<close>: a status of
  0 is falsy.\<close>

definition errorStatus :: "js_error \<Rightarrow> int option" where
  "errorStatus e =
     (case status e of
        Some st \<Rightarrow> if st \<noteq> 0 then Some st else map_option int (match_status (message e))
      | None \<Rightarrow> map_option int (match_status (message e)))"

definition isRate :: "js_error \<Rightarrow> bool" where
  "isRate e = (errorStatus e = Some 429 \<or> includes_str ''[429'' (message e))"

definition isServer :: "js_error \<Rightarrow> bool" where
  "isServer e = (errorStatus e = Some 500 \<or> errorStatus e = Some 503)"

subsection \<open>The shared cooldown and the loop\<close>

text \<open>
  The state a run sees: the clock (\<^verbatim>\<open>Date.now()\<close>, in milliseconds), the module variable
  \<open>last429CooldownUntil\<close>, which all runs share, and the assignments other runs are going to
  make to it: an entry \<open>(t, v)\<close> of \<open>otherWrites\<close>, kept in the order of time, is another run
  executing \<^verbatim>\<open>last429CooldownUntil = v\<close> at time \<open>t\<close>. While time passes the assignments that
  come due are made.
\<close>

record retry_state =
  now :: nat
  last429CooldownUntil :: nat
  otherWrites :: "(nat \<times> nat) list"

definition sleep :: "nat \<Rightarrow> retry_state \<Rightarrow> retry_state" where
  "sleep d s =
     (let t = now s + d;
          due = filter (\<lambda>w. fst w \<le> t) (otherWrites s)
      in s\<lparr> now := t,
            last429CooldownUntil := (if due = [] then last429CooldownUntil s else snd (last due)),
            otherWrites := filter (\<lambda>w. t < fst w) (otherWrites s) \<rparr>)"

text \<open>\<^verbatim>\<open>await new Promise((r) => setTimeout(r, d))\<close>: the timer of Node.js fires after \<open>d\<close>
  milliseconds when \<open>1 \<le> d \<le> 2147483647\<close>, and after 1 millisecond otherwise.\<close>

definition setTimeout :: "nat \<Rightarrow> retry_state \<Rightarrow> retry_state" where
  "setTimeout d s = sleep (if 1 \<le> d \<and> d \<le> 2147483647 then d else 1) s"

text \<open>\<open>ensureCooldown\<close> reads the clock and the cooldown once and, when the cooldown lies in
  the future, waits for the difference; it does not read them again after the wait.\<close>

definition ensureCooldown :: "retry_state \<Rightarrow> retry_state" where
  "ensureCooldown s =
     (if now s < last429CooldownUntil s then setTimeout (last429CooldownUntil s - now s) s else s)"

text \<open>\<^verbatim>\<open>(parseRetryDelayMs(msg) || 30_000) + Math.floor(Math.random() * 1500)\<close>, with \<open>r\<close>
  the value of \<^verbatim>\<open>Math.random()\<close>; a parsed delay of 0 is falsy.\<close>

definition rateDelay :: "string \<Rightarrow> real \<Rightarrow> nat" where
  "rateDelay msg r =
     (case parseRetryDelayMs msg of
        Some ms \<Rightarrow> if ms \<noteq> 0 then ms else 30000
      | None \<Rightarrow> 30000) + nat \<lfloor>r * 1500\<rfloor>"

text \<open>\<^verbatim>\<open>baseDelay * Math.pow(2, i) + Math.floor(Math.random() * 400)\<close>.\<close>

definition serverDelay :: "nat \<Rightarrow> nat \<Rightarrow> real \<Rightarrow> nat" where
  "serverDelay baseDelay i r = baseDelay * 2 ^ i + nat \<lfloor>r * 400\<rfloor>"

definition maxRetriesExceeded :: js_error where
  "maxRetriesExceeded = \<lparr> status = None, message = ''Max retries exceeded'' \<rparr>"

text \<open>
  The \<^verbatim>\<open>for\<close> loop of \<open>retryWithBackoff\<close> from attempt \<open>i\<close> on. \<open>operation i\<close> is what the
  \<open>i\<close>-th call of the operation does: the time it takes (during which time passes, \<open>sleep\<close>)
  and how its promise settles.
  \<open>rnd i\<close> is the value \<^verbatim>\<open>Math.random()\<close> returns in the handler of attempt \<open>i\<close>.
  The result is the returned value (\<open>Inr\<close>) or the thrown error (\<open>Inl\<close>), with the final state.
\<close>

function retryLoop ::
  "(nat \<Rightarrow> nat \<times> 'a settled) \<Rightarrow> (nat \<Rightarrow> real) \<Rightarrow> nat \<Rightarrow> nat \<Rightarrow> nat \<Rightarrow> retry_state
     \<Rightarrow> (js_error + 'a) \<times> retry_state" where
  "retryLoop operation rnd maxRetries baseDelay i s =
     (if i < maxRetries then
        (let s1 = ensureCooldown s;
             s2 = sleep (fst (operation i)) s1
         in case snd (operation i) of
              Resolved v \<Rightarrow> (Inr v, s2)
            | Rejected e \<Rightarrow>
                (let msg = message e;
                     isLast = (i = maxRetries - 1)
                 in if isRate e then
                      (let delay = rateDelay msg (rnd i);
                           s3 = s2\<lparr> last429CooldownUntil := now s2 + delay \<rparr>
                       in if isLast then (Inl e, s3)
                          else retryLoop operation rnd maxRetries baseDelay (i + 1) (setTimeout delay s3))
                    else if \<not> isServer e \<or> isLast then (Inl e, s2)
                    else retryLoop operation rnd maxRetries baseDelay (i + 1)
                           (setTimeout (serverDelay baseDelay i (rnd i)) s2)))
      else (Inl maxRetriesExceeded, s))"
  by pat_completeness auto
termination
  by (relation "measure (\<lambda>(operation, rnd, maxRetries, baseDelay, i, s). maxRetries - i)") auto

definition retryWithBackoff ::
  "(nat \<Rightarrow> nat \<times> 'a settled) \<Rightarrow> (nat \<Rightarrow> real) \<Rightarrow> nat \<Rightarrow> nat \<Rightarrow> retry_state
     \<Rightarrow> (js_error + 'a) \<times> retry_state" where
  "retryWithBackoff operation rnd maxRetries baseDelay s =
     retryLoop operation rnd maxRetries baseDelay 0 s"

section \<open>Batch processing (\<^verbatim>\<open>BatchProcessor\<close>)\<close>

record batch_options =
  batchSize :: nat
  batchDelayMs :: nat
  itemTimeoutMs :: nat
  batchTimeoutMs :: nat
  maxRetries :: nat
  baseRetryDelay :: nat
  concurrentBatches :: nat

text \<open>
  What the code cannot decide by itself is given by the environment:
  \<^item> \<open>processor item a\<close> is what the \<open>a\<close>-th call \<^verbatim>\<open>processor(item)\<close> does: the time it takes
    and how its promise settles (\<open>Resolved None\<close> is \<^verbatim>\<open>null\<close>). Items that must behave
    differently are different values of the item type.
  \<^item> \<open>itemTimerWins item\<close>: in the \<^verbatim>\<open>Promise.race\<close> of \<open>processItemWithTimeout\<close> the timer of
    \<open>itemTimeoutMs\<close> settles first (always so for a processor that never settles).
  \<^item> \<open>batchTimerWins n\<close>: in the race of batch number \<open>n\<close> the timer of \<open>batchTimeoutMs\<close>
    settles before \<^verbatim>\<open>Promise.allSettled\<close>.
  \<^item> \<open>random item\<close> and \<open>clock item\<close>: the values of \<^verbatim>\<open>Math.random()\<close> and the state of the
    clock and the cooldown met by the retries of an item.

  The callback \<^verbatim>\<open>getItemName\<close> only builds log messages and is taken to return normally
  (the sequential loop calls it in \<^verbatim>\<open>batch.map(getItemName)\<close> outside its \<^verbatim>\<open>try\<close> block);
  logging and the waits between batches do not affect the result and are left out.
\<close>

record 'i races =
  itemTimerWins :: "'i \<Rightarrow> bool"
  batchTimerWins :: "nat \<Rightarrow> bool"
  random :: "'i \<Rightarrow> nat \<Rightarrow> real"
  clock :: "'i \<Rightarrow> retry_state"

text \<open>\<open>processItemWithTimeout\<close> never rejects: \<open>processPromise\<close> turns a thrown error into
  \<^verbatim>\<open>null\<close>, and the outer \<^verbatim>\<open>catch\<close> turns the timeout into \<^verbatim>\<open>null\<close>.\<close>

definition processPromise ::
  "batch_options \<Rightarrow> 'i races \<Rightarrow> ('i \<Rightarrow> nat \<Rightarrow> nat \<times> 'o option settled) \<Rightarrow> 'i \<Rightarrow> 'o option" where
  "processPromise opts env processor item =
     (case fst (retryWithBackoff (processor item) (random env item) (maxRetries opts)
                  (baseRetryDelay opts) (clock env item)) of
        Inr v \<Rightarrow> v
      | Inl error \<Rightarrow> None)"

definition processItemWithTimeout ::
  "batch_options \<Rightarrow> 'i races \<Rightarrow> ('i \<Rightarrow> nat \<Rightarrow> nat \<times> 'o option settled) \<Rightarrow> 'i \<Rightarrow> 'o option" where
  "processItemWithTimeout opts env processor item =
     (if itemTimerWins env item then None else processPromise opts env processor item)"

text \<open>\<^verbatim>\<open>items.slice(i, j)\<close> for \<open>0 \<le> i \<le> j\<close>.\<close>

definition slice :: "'a list \<Rightarrow> nat \<Rightarrow> nat \<Rightarrow> 'a list" where
  "slice xs i j = take (j - i) (drop i xs)"

text \<open>
  One batch: \<^verbatim>\<open>Promise.allSettled\<close> of the items' promises (all fulfilled, in the order of
  the batch) raced against the batch timer; the results with \<^verbatim>\<open>status === 'fulfilled'\<close> and
  \<^verbatim>\<open>value !== null\<close> are kept. When the timer wins the \<^verbatim>\<open>catch\<close> block runs and the batch
  contributes nothing.
\<close>

definition successfulResults :: "'o option settled list \<Rightarrow> 'o list" where
  "successfulResults batchResults =
     concat (map (\<lambda>result. case result of Resolved (Some v) \<Rightarrow> [v] | _ \<Rightarrow> []) batchResults)"

definition runBatch ::
  "batch_options \<Rightarrow> 'i races \<Rightarrow> ('i \<Rightarrow> nat \<Rightarrow> nat \<times> 'o option settled) \<Rightarrow> nat \<Rightarrow> 'i list \<Rightarrow> 'o list" where
  "runBatch opts env processor batchNumber batch =
     (if batchTimerWins env batchNumber then []
      else successfulResults
             (map (\<lambda>item. Resolved (processItemWithTimeout opts env processor item)) batch))"

text \<open>The loops. With \<open>batchSize = 0\<close> the index never advances, so the loops are partial:
  \<open>None\<close> is a run that does not return.\<close>

partial_function (option) sequentialLoop ::
  "batch_options \<Rightarrow> 'i races \<Rightarrow> ('i \<Rightarrow> nat \<Rightarrow> nat \<times> 'o option settled) \<Rightarrow> 'i list \<Rightarrow> nat
     \<Rightarrow> 'o list \<Rightarrow> 'o list option" where
  "sequentialLoop opts env processor items i allResults =
     (if i < length items then
        (let batch = slice items i (i + batchSize opts);
             batchNumber = i div batchSize opts + 1
         in sequentialLoop opts env processor items (i + batchSize opts)
              (allResults @ runBatch opts env processor batchNumber batch))
      else Some allResults)"

partial_function (option) makeBatches ::
  "'i list \<Rightarrow> nat \<Rightarrow> nat \<Rightarrow> 'i list list \<Rightarrow> 'i list list option" where
  "makeBatches items sz i batches =
     (if i < length items then makeBatches items sz (i + sz) (batches @ [slice items i (i + sz)])
      else Some batches)"

partial_function (option) concurrentLoop ::
  "batch_options \<Rightarrow> 'i races \<Rightarrow> ('i \<Rightarrow> nat \<Rightarrow> nat \<times> 'o option settled) \<Rightarrow> 'i list list \<Rightarrow> nat
     \<Rightarrow> 'o list \<Rightarrow> 'o list option" where
  "concurrentLoop opts env processor batches i allResults =
     (if i < length batches then
        (let group = slice batches i (i + concurrentBatches opts);
             concurrentResults =
               map (\<lambda>(batchItems, batchIndex). runBatch opts env processor (i + batchIndex + 1) batchItems)
                 (zip group [0 ..< length group])
         in concurrentLoop opts env processor batches (i + concurrentBatches opts)
              (allResults @ concat concurrentResults))
      else Some allResults)"

definition processConcurrentBatches ::
  "batch_options \<Rightarrow> 'i races \<Rightarrow> ('i \<Rightarrow> nat \<Rightarrow> nat \<times> 'o option settled) \<Rightarrow> 'i list \<Rightarrow> 'o list option" where
  "processConcurrentBatches opts env processor items =
     (case makeBatches items (batchSize opts) 0 [] of
        None \<Rightarrow> None
      | Some batches \<Rightarrow> concurrentLoop opts env processor batches 0 [])"

definition processBatches ::
  "batch_options \<Rightarrow> 'i races \<Rightarrow> ('i \<Rightarrow> nat \<Rightarrow> nat \<times> 'o option settled) \<Rightarrow> 'i list \<Rightarrow> 'o list option" where
  "processBatches opts env processor items =
     (if 1 < concurrentBatches opts then processConcurrentBatches opts env processor items
      else sequentialLoop opts env processor items 0 [])"

text \<open>For stating results: the results the batches contribute, batch numbers counted
  from \<open>n\<close>.\<close>

fun batchResultsFrom ::
  "batch_options \<Rightarrow> 'i races \<Rightarrow> ('i \<Rightarrow> nat \<Rightarrow> nat \<times> 'o option settled) \<Rightarrow> nat \<Rightarrow> 'i list list \<Rightarrow> 'o list" where
  "batchResultsFrom opts env processor n [] = []"
| "batchResultsFrom opts env processor n (b # bs) =
     runBatch opts env processor n b @ batchResultsFrom opts env processor (Suc n) bs"

text \<open>For stating results: the consecutive batches of \<open>n\<close> items that partition a list (the
  last one may be shorter).\<close>

function chunks :: "nat \<Rightarrow> 'a list \<Rightarrow> 'a list list" where
  "chunks n xs = (if n = 0 \<or> xs = [] then [] else take n xs # chunks n (drop n xs))"
  by pat_completeness auto
termination
  by (relation "measure (\<lambda>(n, xs). length xs)") auto

section \<open>The estimator on finite numbers\<close>

text \<open>On finite arguments the functions above compute the following real-valued functions
  (lemmas \<open>sigmoid_Fin\<close>, \<open>itemLikelihood_Fin\<close>, \<open>logLikelihood_Fin\<close>, \<open>logPrior_Fin\<close>,
  \<open>logPosterior_Fin\<close>, \<open>gridAbilities_nth\<close> below); they are used to state and prove
  properties.\<close>

definition realSigmoid :: "real \<Rightarrow> real" where
  "realSigmoid z = 1 / (1 + exp (- z))"

definition realLikelihood :: "real \<Rightarrow> evaluation \<Rightarrow> real" where
  "realLikelihood x e =
     (if level e = predictedMaxScore e then realSigmoid (x - level e)
      else realSigmoid (x - level e) - realSigmoid (x - (level e + 1)))"

definition realLogLikelihood :: "real \<Rightarrow> evaluation list \<Rightarrow> real" where
  "realLogLikelihood x es = (\<Sum>e\<leftarrow>es. ln (max (realLikelihood x e) epsilon))"

definition realLogPrior :: "real \<Rightarrow> real \<Rightarrow> real \<Rightarrow> real \<Rightarrow> real" where
  "realLogPrior b xmin xmax x =
     ln 6 + ln (x - xmin) - ln (xmax - xmin) + (b - 1) * (ln (xmax - x) - ln (xmax - xmin))"

definition gridPoint :: "real \<Rightarrow> real \<Rightarrow> nat \<Rightarrow> nat \<Rightarrow> real" where
  "gridPoint xmin xmax g i = xmin + (real i / real g) * (xmax - xmin)"

definition realLogPosterior :: "evaluation list \<Rightarrow> real \<Rightarrow> real \<Rightarrow> real \<Rightarrow> real \<Rightarrow> real" where
  "realLogPosterior es b xmin xmax x = realLogLikelihood x es + realLogPrior b xmin xmax x"


section \<open>Floating-point arithmetic\<close>

text \<open>
  JavaScript numbers are IEEE 754 doubles: an operation on finite numbers returns the exact
  result rounded to a double, or an infinity when the result is too large. An arithmetic gives
  the rounding \<open>fround\<close> of an exact finite result and the functions \<^verbatim>\<open>Math.exp\<close> and \<^verbatim>\<open>Math.log\<close>,
  whose precision ECMAScript leaves to the implementation (\<open>fexp\<close>, \<open>flog\<close>). The special
  values are not rounded.
\<close>

record arith =
  fround :: "real \<Rightarrow> number"
  fexp :: "number \<Rightarrow> number"
  flog :: "number \<Rightarrow> number"

definition rounded :: "(real \<Rightarrow> number) \<Rightarrow> number \<Rightarrow> number" where
  "rounded r x = (case x of Fin a \<Rightarrow> r a | PInf \<Rightarrow> PInf | NInf \<Rightarrow> NInf | NaN \<Rightarrow> NaN)"

definition r_add :: "arith \<Rightarrow> number \<Rightarrow> number \<Rightarrow> number" where
  "r_add ar x y = rounded (fround ar) (n_add x y)"

definition r_sub :: "arith \<Rightarrow> number \<Rightarrow> number \<Rightarrow> number" where
  "r_sub ar x y = rounded (fround ar) (n_sub x y)"

definition r_mul :: "arith \<Rightarrow> number \<Rightarrow> number \<Rightarrow> number" where
  "r_mul ar x y = rounded (fround ar) (n_mul x y)"

definition r_div :: "arith \<Rightarrow> number \<Rightarrow> number \<Rightarrow> number" where
  "r_div ar x y = rounded (fround ar) (n_div x y)"

text \<open>The arithmetic without rounding, that of the sections above.\<close>

definition exact :: arith where
  "exact = \<lparr> fround = Fin, fexp = n_exp, flog = n_log \<rparr>"

text \<open>
  Double precision. A real \<open>x \<noteq> 0\<close> with \<open>2 ^ e \<le> |x| < 2 ^ (e + 1)\<close> is rounded to the
  nearest multiple of \<open>2 ^ (e - 52)\<close> (of \<open>2 ^ -1074\<close> for the subnormal numbers, \<open>e < -1022\<close>),
  a tie going to the even multiple; a result of magnitude \<open>2 ^ 1024\<close> is an infinity.
  \<open>binary64\<close> takes for \<^verbatim>\<open>Math.exp\<close> and \<^verbatim>\<open>Math.log\<close> the correctly rounded functions; the
  theorems below that are stated for \<open>binary64\<close> do not depend on this choice.
\<close>

definition round_half_even :: "real \<Rightarrow> int" where
  "round_half_even r =
     (let f = \<lfloor>r\<rfloor> in
      if r - of_int f < 1 / 2 then f
      else if 1 / 2 < r - of_int f then f + 1
      else if even f then f else f + 1)"

definition binade :: "real \<Rightarrow> int" where
  "binade x = max \<lfloor>log 2 \<bar>x\<bar>\<rfloor> (- 1022)"

definition round64 :: "real \<Rightarrow> number" where
  "round64 x =
     (if x = 0 then Fin 0
      else
        let q = 2 powi (binade x - 52);
            y = of_int (round_half_even (x / q)) * q
        in if 2 ^ 1024 \<le> \<bar>y\<bar> then (if 0 < x then PInf else NInf) else Fin y)"

definition binary64 :: arith where
  "binary64 = \<lparr> fround = round64,
                fexp = (\<lambda>x. rounded round64 (n_exp x)),
                flog = (\<lambda>x. rounded round64 (n_log x)) \<rparr>"

text \<open>
  The estimator of \<^verbatim>\<open>src/app/lib/mle-logic.ts\<close> in an arithmetic \<open>ar\<close>: the definitions of the
  section on the estimator, every \<^verbatim>\<open>+\<close>, \<^verbatim>\<open>-\<close>, \<^verbatim>\<open>*\<close> and \<^verbatim>\<open>/\<close> of the source followed by the
  rounding, and the literal \<^verbatim>\<open>1e-10\<close> rounded. Comparisons, \<^verbatim>\<open>Math.max\<close>, the loop counter and
  the integer literals are exact. With \<open>ar = exact\<close> these are the functions of that section
  (lemma \<open>exact_estimator\<close>).
\<close>

definition sigmoid_fp :: "arith \<Rightarrow> number \<Rightarrow> number" where
  "sigmoid_fp ar z = r_div ar (Fin 1) (r_add ar (Fin 1) (fexp ar (n_neg z)))"

definition itemLikelihood_fp :: "arith \<Rightarrow> number \<Rightarrow> evaluation \<Rightarrow> number" where
  "itemLikelihood_fp ar ability evalItem =
     (let k = Fin (level evalItem);
          n = Fin (predictedMaxScore evalItem);
          prob_y = sigmoid_fp ar (r_add ar (r_mul ar (Fin 1) (r_sub ar ability k)) (Fin 0))
      in if n_eq k n then prob_y
         else r_sub ar prob_y
                (sigmoid_fp ar
                   (r_add ar (r_mul ar (Fin 1) (r_sub ar ability (r_add ar k (Fin 1)))) (Fin 0))))"

definition logLikelihood_fp :: "arith \<Rightarrow> number \<Rightarrow> evaluation list \<Rightarrow> number" where
  "logLikelihood_fp ar ability evaluations =
     foldl (\<lambda>acc evalItem.
              r_add ar acc (flog ar (n_max (itemLikelihood_fp ar ability evalItem) (fround ar epsilon))))
       (Fin 0) evaluations"

definition logPrior_fp ::
  "arith \<Rightarrow> number \<Rightarrow> number \<Rightarrow> number \<Rightarrow> number \<Rightarrow> number \<Rightarrow> number" where
  "logPrior_fp ar ability ALPHA BETA_PARAM xMin xMax =
     (let x = ability in
      if \<not> (n_le xMin x \<and> n_le x xMax) then NInf
      else if n_eq x xMin \<or> n_eq x xMax then NInf
      else r_add ar
             (r_sub ar (r_add ar (flog ar (Fin 6)) (flog ar (r_sub ar x xMin)))
                (flog ar (r_sub ar xMax xMin)))
             (r_mul ar (r_sub ar BETA_PARAM (Fin 1))
                (r_sub ar (flog ar (r_sub ar xMax x)) (flog ar (r_sub ar xMax xMin)))))"

definition gridAbilities_fp :: "arith \<Rightarrow> number \<Rightarrow> number \<Rightarrow> nat \<Rightarrow> number list" where
  "gridAbilities_fp ar xMin xMax gridPoints =
     map (\<lambda>i. r_add ar xMin
                 (r_mul ar (r_div ar (Fin (real i)) (Fin (real gridPoints))) (r_sub ar xMax xMin)))
       [0 ..< Suc gridPoints]"

definition estimateAbilityByGridSearchMAP_fp ::
  "arith \<Rightarrow> evaluation list \<Rightarrow> number \<Rightarrow> number \<Rightarrow> number \<Rightarrow> number \<Rightarrow> nat \<Rightarrow> map_result" where
  "estimateAbilityByGridSearchMAP_fp ar evaluations ALPHA BETA_PARAM xMin xMax gridPoints =
     (if length evaluations = 0 then
        \<lparr> bestAbility =
            r_add ar xMin
              (r_div ar (r_mul ar (r_sub ar xMax xMin) (r_sub ar ALPHA (Fin 1)))
                 (r_sub ar (r_add ar ALPHA BETA_PARAM) (Fin 2))),
          abilities = [], logPriors = [], logLikelihoods = [], logPosteriors = [] \<rparr>
      else
        let abs = gridAbilities_fp ar xMin xMax gridPoints;
            lpr = map (\<lambda>ab. logPrior_fp ar ab ALPHA BETA_PARAM xMin xMax) abs;
            lls = map (\<lambda>ab. logLikelihood_fp ar ab evaluations) abs;
            lps = map (\<lambda>(ll, i). r_add ar ll (lpr ! i)) (zip lls [0 ..< length lls]);
            valid = validIndices lps
        in if length valid = 0 then
             \<lparr> bestAbility = xMin,
               abilities = abs, logPriors = lpr, logLikelihoods = lls, logPosteriors = lps \<rparr>
           else
             \<lparr> bestAbility = abs ! snd (maxItem valid),
               abilities = abs, logPriors = lpr, logLikelihoods = lls, logPosteriors = lps \<rparr>)"


section \<open>Properties of the estimator\<close>

lemma n_sub_Fin [simp]: "n_sub (Fin a) (Fin b) = Fin (a - b)"
  by (simp add: n_sub_def)

lemma n_le_Fin [simp]: "n_le (Fin a) (Fin b) = (a \<le> b)"
  by (auto simp: n_le_def)

lemma one_plus_exp_neq0 [simp]: "1 + exp (x::real) \<noteq> 0"
proof -
  have "0 < 1 + exp x" by (simp add: add_pos_pos)
  then show ?thesis by simp
qed

lemma sigmoid_Fin [simp]: "sigmoid (Fin z) = Fin (realSigmoid z)"
  by (simp add: sigmoid_def realSigmoid_def)

lemma epsilon_pos [simp]: "0 < epsilon"
  by (simp add: epsilon_def)

lemma itemLikelihood_Fin [simp]: "itemLikelihood (Fin x) e = Fin (realLikelihood x e)"
  by (simp add: itemLikelihood_def realLikelihood_def Let_def)

lemma n_max_Fin: "n_max (Fin a) (Fin b) = Fin (max a b)"
  by (simp add: max_def)

lemma n_min_Fin: "n_min (Fin a) (Fin b) = Fin (min a b)"
  by (simp add: min_def)

lemma item_log_Fin:
  "n_log (n_max (itemLikelihood (Fin x) e) (Fin epsilon)) = Fin (ln (max (realLikelihood x e) epsilon))"
proof -
  have pos: "0 < max (realLikelihood x e) epsilon"
    by (simp add: less_max_iff_disj)
  have "n_max (itemLikelihood (Fin x) e) (Fin epsilon) = Fin (max (realLikelihood x e) epsilon)"
    by (simp only: itemLikelihood_Fin n_max_Fin)
  with pos show ?thesis by simp
qed

lemma logLikelihood_foldl:
  "foldl (\<lambda>acc evalItem. n_add acc (n_log (n_max (itemLikelihood (Fin x) evalItem) (Fin epsilon))))
     (Fin c) es = Fin (c + realLogLikelihood x es)"
proof (induction es arbitrary: c)
  case Nil
  then show ?case by (simp add: realLogLikelihood_def)
next
  case (Cons e es)
  show ?case using Cons[of "c + ln (max (realLikelihood x e) epsilon)"]
    by (simp only: foldl_Cons item_log_Fin n_add.simps realLogLikelihood_def list.map sum_list.Cons add.assoc)
qed

lemma logLikelihood_Fin [simp]: "logLikelihood (Fin x) es = Fin (realLogLikelihood x es)"
  using logLikelihood_foldl[of x 0 es] by (simp add: logLikelihood_def)

lemma logPrior_Fin:
  "logPrior (Fin x) ALPHA (Fin b) (Fin xmin) (Fin xmax) =
     (if xmin < x \<and> x < xmax then Fin (realLogPrior b xmin xmax x) else NInf)"
  by (auto simp: logPrior_def realLogPrior_def Let_def)

lemma logPrior_finite_range:
  "isFinite (logPrior x ALPHA BETA_PARAM xMin xMax) \<Longrightarrow> n_le xMin x \<and> n_le x xMax"
  by (auto simp: logPrior_def Let_def split: if_splits)

lemma n_add_finite: "isFinite (n_add x y) \<Longrightarrow> isFinite x \<and> isFinite y"
  by (cases x; cases y) auto

lemma isFinite_iff: "isFinite x \<longleftrightarrow> (\<exists>r. x = Fin r)"
  by (cases x) auto

lemma foldl_max_mem:
  "foldl (\<lambda>mx current. if n_lt (fst mx) (fst current) then current else mx) m xs \<in> set (m # xs)"
proof (induction xs arbitrary: m)
  case Nil
  then show ?case by simp
next
  case (Cons x xs)
  show ?case using Cons[of m] Cons[of x] by auto
qed

lemma foldl_max_finite:
  assumes "isFinite (fst m)" "\<forall>x\<in>set xs. isFinite (fst x)"
  shows "isFinite (fst (foldl (\<lambda>mx current. if n_lt (fst mx) (fst current) then current else mx) m xs))"
proof -
  have "\<forall>x\<in>set (m # xs). isFinite (fst x)" using assms by simp
  then show ?thesis using foldl_max_mem[of m xs] by blast
qed

lemma foldl_max_ge_init:
  assumes "isFinite (fst m)" "\<forall>x\<in>set xs. isFinite (fst x)"
  shows "n_le (fst m) (fst (foldl (\<lambda>mx current. if n_lt (fst mx) (fst current) then current else mx) m xs))"
  using assms
proof (induction xs arbitrary: m)
  case Nil
  then show ?case by (auto simp: isFinite_iff)
next
  case (Cons x xs)
  obtain a b where ab: "fst m = Fin a" "fst x = Fin b"
    using Cons.prems by (auto simp: isFinite_iff)
  show ?case
  proof (cases "a < b")
    case True
    have "n_le (fst x) (fst (foldl (\<lambda>mx current. if n_lt (fst mx) (fst current) then current else mx) x xs))"
      using Cons.IH[of x] Cons.prems by simp
    moreover have "isFinite (fst (foldl (\<lambda>mx current. if n_lt (fst mx) (fst current) then current else mx) x xs))"
      using foldl_max_finite[of x xs] Cons.prems by simp
    ultimately show ?thesis using True ab by (auto simp: isFinite_iff)
  next
    case False
    then show ?thesis using Cons.IH[of m] Cons.prems ab by simp
  qed
qed

lemma foldl_max_ge_all:
  assumes "isFinite (fst m)" "\<forall>x\<in>set xs. isFinite (fst x)" "y \<in> set xs"
  shows "n_le (fst y) (fst (foldl (\<lambda>mx current. if n_lt (fst mx) (fst current) then current else mx) m xs))"
  using assms
proof (induction xs arbitrary: m)
  case Nil
  then show ?case by simp
next
  case (Cons x xs)
  let ?step = "\<lambda>mx current. if n_lt (fst mx) (fst current) then current else mx"
  let ?m' = "?step m x"
  have fin': "isFinite (fst ?m')" using Cons.prems by auto
  have fold: "foldl ?step m (x # xs) = foldl ?step ?m' xs" by simp
  show ?case
  proof (cases "y \<in> set xs")
    case True
    then show ?thesis using Cons.IH[of ?m'] fin' Cons.prems(2) unfolding fold by simp
  next
    case False
    then have yx: "y = x" using Cons.prems(3) by simp
    obtain a b where ab: "fst m = Fin a" "fst x = Fin b"
      using Cons.prems by (auto simp: isFinite_iff)
    have ge: "n_le (fst ?m') (fst (foldl ?step ?m' xs))"
      using foldl_max_ge_init[of ?m' xs] fin' Cons.prems(2) by simp
    obtain c where c: "fst (foldl ?step ?m' xs) = Fin c"
      using foldl_max_finite[of ?m' xs] fin' Cons.prems(2) by (auto simp: isFinite_iff)
    have "b \<le> c" using ge ab c by (auto split: if_splits)
    then show ?thesis unfolding fold yx using ab c by simp
  qed
qed

lemma maxItem_mem: "xs \<noteq> [] \<Longrightarrow> maxItem xs \<in> set xs"
  using foldl_max_mem[of "hd xs" "tl xs"] by (cases xs) (auto simp: maxItem_def)

lemma maxItem_ge:
  assumes "\<forall>x\<in>set xs. isFinite (fst x)" "y \<in> set xs"
  shows "n_le (fst y) (fst (maxItem xs))"
proof (cases xs)
  case Nil
  then show ?thesis using assms by simp
next
  case (Cons m ms)
  show ?thesis
  proof (cases "y \<in> set ms")
    case True
    then show ?thesis using foldl_max_ge_all[of m ms y] assms Cons by (simp add: maxItem_def)
  next
    case False
    then have "y = m" using assms Cons by simp
    then show ?thesis using foldl_max_ge_init[of m ms] assms Cons by (simp add: maxItem_def)
  qed
qed

lemma validIndices_set:
  "x \<in> set (validIndices lps) \<longleftrightarrow> isFinite (fst x) \<and> snd x < length lps \<and> fst x = lps ! snd x"
proof -
  have "set (zip lps [0 ..< length lps]) = {(lps ! i, i) | i. i < length lps}"
    by (auto simp: set_zip)
  then show ?thesis by (cases x) (auto simp: validIndices_def)
qed

lemma logPosteriors_eq:
  "map (\<lambda>(ll, i). n_add ll (map f xs ! i)) (zip (map h xs) [0 ..< length (map h xs)])
     = map (\<lambda>x. n_add (h x) (f x)) xs"
  by (rule nth_equalityI) auto

lemma validIndices_memD:
  assumes "x \<in> set (validIndices lps)"
  shows "isFinite (lps ! snd x)" "snd x < length lps" "fst x = lps ! snd x"
proof -
  have A: "isFinite (fst x) \<and> snd x < length lps \<and> fst x = lps ! snd x"
    using assms validIndices_set[of x lps] by blast
  show "snd x < length lps" "fst x = lps ! snd x" using A by blast+
  show "isFinite (lps ! snd x)" using A by metis
qed

lemma length_gridAbilities [simp]: "length (gridAbilities xMin xMax g) = Suc g"
  by (simp add: gridAbilities_def)

lemma estimate_nonempty:
  assumes "evaluations \<noteq> []"
  shows "estimateAbilityByGridSearchMAP evaluations ALPHA BETA_PARAM xMin xMax g =
     (let abs = gridAbilities xMin xMax g;
          lps = map (\<lambda>ab. logPosterior ab evaluations ALPHA BETA_PARAM xMin xMax) abs;
          valid = validIndices lps
      in \<lparr> bestAbility = (if valid = [] then xMin else abs ! snd (maxItem valid)),
           abilities = abs,
           logPriors = map (\<lambda>ab. logPrior ab ALPHA BETA_PARAM xMin xMax) abs,
           logLikelihoods = map (\<lambda>ab. logLikelihood ab evaluations) abs,
           logPosteriors = lps \<rparr>)"
proof -
  have eq: "map (\<lambda>(ll, i). n_add ll (map (\<lambda>ab. logPrior ab ALPHA BETA_PARAM xMin xMax) (gridAbilities xMin xMax g) ! i))
          (zip (map (\<lambda>ab. logLikelihood ab evaluations) (gridAbilities xMin xMax g))
             [0 ..< length (map (\<lambda>ab. logLikelihood ab evaluations) (gridAbilities xMin xMax g))])
        = map (\<lambda>ab. logPosterior ab evaluations ALPHA BETA_PARAM xMin xMax) (gridAbilities xMin xMax g)"
    unfolding logPosterior_def by (rule logPosteriors_eq)
  show ?thesis
    using assms unfolding estimateAbilityByGridSearchMAP_def Let_def eq by simp
qed

lemma bestAbility_cases:
  fixes evaluations ALPHA BETA_PARAM xMin xMax g
  assumes "evaluations \<noteq> []"
  defines "r \<equiv> estimateAbilityByGridSearchMAP evaluations ALPHA BETA_PARAM xMin xMax g"
  shows "abilities r = gridAbilities xMin xMax g"
    and "logPosteriors r = map (\<lambda>ab. logPosterior ab evaluations ALPHA BETA_PARAM xMin xMax) (abilities r)"
    and "validIndices (logPosteriors r) = [] \<Longrightarrow> bestAbility r = xMin"
    and "validIndices (logPosteriors r) \<noteq> [] \<Longrightarrow>
           bestAbility r = abilities r ! snd (maxItem (validIndices (logPosteriors r)))"
  unfolding r_def estimate_nonempty[OF assms(1)] Let_def by simp_all

lemma bestAbility_argmax:
  fixes evaluations ALPHA BETA_PARAM xMin xMax g
  assumes ne: "evaluations \<noteq> []"
  defines "r \<equiv> estimateAbilityByGridSearchMAP evaluations ALPHA BETA_PARAM xMin xMax g"
  assumes ex: "j0 \<le> g" "isFinite (logPosteriors r ! j0)"
  shows "\<exists>k\<le>g. bestAbility r = abilities r ! k \<and> isFinite (logPosteriors r ! k) \<and>
           (\<forall>j\<le>g. isFinite (logPosteriors r ! j) \<longrightarrow> n_le (logPosteriors r ! j) (logPosteriors r ! k))"
proof -
  let ?lps = "logPosteriors r"
  let ?v = "validIndices ?lps"
  have len: "length ?lps = Suc g"
    using bestAbility_cases(1,2)[OF ne, of ALPHA BETA_PARAM xMin xMax g] unfolding r_def by simp
  have "(?lps ! j0, j0) \<in> set ?v"
    using ex len by (simp add: validIndices_set)
  then have nonempty: "?v \<noteq> []" by auto
  have mem: "maxItem ?v \<in> set ?v" using maxItem_mem[OF nonempty] .
  let ?k = "snd (maxItem ?v)"
  have k: "isFinite (?lps ! ?k)" "?k \<le> g" "fst (maxItem ?v) = ?lps ! ?k"
    using validIndices_memD[OF mem] len by simp_all
  have fin: "\<forall>x\<in>set ?v. isFinite (fst x)" using validIndices_set[of _ ?lps] by blast
  have best: "bestAbility r = abilities r ! ?k"
    using bestAbility_cases(4)[OF ne, of ALPHA BETA_PARAM xMin xMax g] nonempty unfolding r_def by simp
  have "n_le (?lps ! j) (?lps ! ?k)" if "j \<le> g" "isFinite (?lps ! j)" for j
  proof -
    have "(?lps ! j, j) \<in> set ?v" using that len by (simp add: validIndices_set)
    from maxItem_ge[OF fin this] show ?thesis using k(3) by simp
  qed
  then show ?thesis using best k by (intro exI[of _ ?k]) auto
qed

lemma logPosterior_finite_range:
  assumes "isFinite (logPosterior x evaluations ALPHA BETA_PARAM xMin xMax)"
  shows "n_le xMin x \<and> n_le x xMax"
  using assms n_add_finite logPrior_finite_range unfolding logPosterior_def by blast

lemma bestAbility_in_range_nonempty:
  assumes ne: "evaluations \<noteq> []" and lt: "n_lt xMin xMax"
  shows "n_le xMin (bestAbility (estimateAbilityByGridSearchMAP evaluations ALPHA BETA_PARAM xMin xMax g))
       \<and> n_le (bestAbility (estimateAbilityByGridSearchMAP evaluations ALPHA BETA_PARAM xMin xMax g)) xMax"
proof -
  let ?r = "estimateAbilityByGridSearchMAP evaluations ALPHA BETA_PARAM xMin xMax g"
  let ?v = "validIndices (logPosteriors ?r)"
  show ?thesis
  proof (cases "?v = []")
    case True
    then have "bestAbility ?r = xMin" using bestAbility_cases(3)[OF ne] by simp
    moreover have "n_le xMin xMin \<and> n_le xMin xMax"
      using lt by (cases xMin; cases xMax) (auto simp: n_le_def)
    ultimately show ?thesis by simp
  next
    case False
    let ?k = "snd (maxItem ?v)"
    have mem: "maxItem ?v \<in> set ?v" using maxItem_mem[OF False] .
    have len: "length (logPosteriors ?r) = Suc g"
      using bestAbility_cases(1,2)[OF ne, of ALPHA BETA_PARAM xMin xMax g] by simp
    have k: "?k < Suc g" "isFinite (logPosteriors ?r ! ?k)"
      using validIndices_memD[OF mem] len by simp_all
    have "logPosteriors ?r ! ?k = logPosterior (abilities ?r ! ?k) evaluations ALPHA BETA_PARAM xMin xMax"
      using bestAbility_cases(1,2)[OF ne, of ALPHA BETA_PARAM xMin xMax g] k(1) by simp
    then have "n_le xMin (abilities ?r ! ?k) \<and> n_le (abilities ?r ! ?k) xMax"
      using logPosterior_finite_range k(2) by metis
    then show ?thesis using bestAbility_cases(4)[OF ne False] by simp
  qed
qed

lemma gridAbilities_nth:
  assumes "0 < g" "i \<le> g"
  shows "gridAbilities (Fin xmin) (Fin xmax) g ! i = Fin (gridPoint xmin xmax g i)"
proof -
  have i: "i < Suc g" using assms by simp
  have "[0 ..< Suc g] ! i = i" using nth_upt[of 0 i "Suc g"] i by simp
  then have "gridAbilities (Fin xmin) (Fin xmax) g ! i
      = n_add (Fin xmin) (n_mul (n_div (Fin (real i)) (Fin (real g))) (n_sub (Fin xmax) (Fin xmin)))"
    unfolding gridAbilities_def using i by (simp del: upt_Suc)
  then show ?thesis using assms by (simp add: gridPoint_def)
qed

lemma gridAbilities_zero: "gridAbilities xMin xMax 0 = [NaN]"
  by (cases xMin; cases xMax) (simp_all add: gridAbilities_def n_sub_def)

lemma gridPoint_bounds:
  assumes "xmin < xmax" "0 < g" "i \<le> g"
  shows "xmin \<le> gridPoint xmin xmax g i" "gridPoint xmin xmax g i \<le> xmax"
proof -
  have f: "0 \<le> real i / real g" "real i / real g \<le> 1" using assms by simp_all
  have "0 \<le> (real i / real g) * (xmax - xmin)" using f(1) assms(1) by (intro mult_nonneg_nonneg) simp_all
  then show "xmin \<le> gridPoint xmin xmax g i" by (simp add: gridPoint_def)
  have "(real i / real g) * (xmax - xmin) \<le> 1 * (xmax - xmin)"
    using f(2) assms(1) by (intro mult_right_mono) simp_all
  then show "gridPoint xmin xmax g i \<le> xmax" by (simp add: gridPoint_def)
qed

lemma gridPoint_interior:
  assumes "xmin < xmax" "0 < i" "i < g"
  shows "xmin < gridPoint xmin xmax g i" "gridPoint xmin xmax g i < xmax"
proof -
  have f: "0 < real i / real g" "real i / real g < 1" using assms by simp_all
  have "0 < (real i / real g) * (xmax - xmin)" using f(1) assms(1) by (intro mult_pos_pos) simp_all
  then show "xmin < gridPoint xmin xmax g i" by (simp add: gridPoint_def)
  have "(real i / real g) * (xmax - xmin) < 1 * (xmax - xmin)"
    using f(2) assms(1) by (intro mult_strict_right_mono) simp_all
  then show "gridPoint xmin xmax g i < xmax" by (simp add: gridPoint_def)
qed

lemma gridPoint_ends: "0 < g \<Longrightarrow> gridPoint xmin xmax g 0 = xmin" "0 < g \<Longrightarrow> gridPoint xmin xmax g g = xmax"
  by (simp_all add: gridPoint_def)

lemma gridPoint_mono:
  assumes "xmin < xmax" "0 < g" "i \<le> j"
  shows "gridPoint xmin xmax g i \<le> gridPoint xmin xmax g j"
proof -
  have "real i / real g \<le> real j / real g" using assms by (simp add: divide_right_mono)
  then have "(real i / real g) * (xmax - xmin) \<le> (real j / real g) * (xmax - xmin)"
    using assms(1) by (intro mult_right_mono) simp_all
  then show ?thesis by (simp add: gridPoint_def)
qed

lemma logPosterior_Fin:
  "logPosterior (Fin x) es ALPHA (Fin b) (Fin xmin) (Fin xmax) =
     (if xmin < x \<and> x < xmax then Fin (realLogPosterior es b xmin xmax x) else NInf)"
  by (simp add: logPosterior_def logPrior_Fin realLogPosterior_def)

lemma logPosteriors_nth:
  assumes ne: "es \<noteq> []" and g: "0 < g" and i: "i \<le> g" and lt: "xmin < xmax"
  shows "logPosteriors (estimateAbilityByGridSearchMAP es ALPHA (Fin b) (Fin xmin) (Fin xmax) g) ! i =
     (if 0 < i \<and> i < g then Fin (realLogPosterior es b xmin xmax (gridPoint xmin xmax g i)) else NInf)"
proof -
  let ?r = "estimateAbilityByGridSearchMAP es ALPHA (Fin b) (Fin xmin) (Fin xmax) g"
  have "logPosteriors ?r ! i = logPosterior (gridAbilities (Fin xmin) (Fin xmax) g ! i) es ALPHA (Fin b) (Fin xmin) (Fin xmax)"
    using bestAbility_cases(1,2)[OF ne, of ALPHA "Fin b" "Fin xmin" "Fin xmax" g] i by simp
  also have "\<dots> = logPosterior (Fin (gridPoint xmin xmax g i)) es ALPHA (Fin b) (Fin xmin) (Fin xmax)"
    using gridAbilities_nth[OF g i] by simp
  finally have eq: "logPosteriors ?r ! i = logPosterior (Fin (gridPoint xmin xmax g i)) es ALPHA (Fin b) (Fin xmin) (Fin xmax)" .
  show ?thesis
  proof (cases "0 < i \<and> i < g")
    case True
    then show ?thesis using eq gridPoint_interior[OF lt, of i g] by (simp add: logPosterior_Fin)
  next
    case False
    then have "i = 0 \<or> i = g" using i by auto
    then have "gridPoint xmin xmax g i = xmin \<or> gridPoint xmin xmax g i = xmax"
      using gridPoint_ends[OF g] by auto
    then show ?thesis using eq False by (auto simp add: logPosterior_Fin)
  qed
qed

lemma finite_posterior_grid_pos:
  assumes ne: "evaluations \<noteq> []" and j: "j \<le> g"
    and fin: "isFinite (logPosteriors (estimateAbilityByGridSearchMAP evaluations ALPHA BETA_PARAM xMin xMax g) ! j)"
  shows "0 < g"
proof (rule ccontr)
  assume "\<not> 0 < g"
  then have g0: "g = 0" "j = 0" using j by simp_all
  let ?r = "estimateAbilityByGridSearchMAP evaluations ALPHA BETA_PARAM xMin xMax g"
  have "logPosteriors ?r ! j = logPosterior NaN evaluations ALPHA BETA_PARAM xMin xMax"
    using bestAbility_cases(1,2)[OF ne, of ALPHA BETA_PARAM xMin xMax g] g0
    by (simp add: gridAbilities_zero)
  then have "n_le xMin NaN \<and> n_le NaN xMax" using fin logPosterior_finite_range by metis
  then show False by (cases xMin) (simp_all add: n_le_def)
qed

lemma bestAbility_all_NInf:
  assumes ne: "evaluations \<noteq> []"
    and all: "\<forall>j\<le>g. logPosteriors (estimateAbilityByGridSearchMAP evaluations ALPHA BETA_PARAM xMin xMax g) ! j = NInf"
  shows "bestAbility (estimateAbilityByGridSearchMAP evaluations ALPHA BETA_PARAM xMin xMax g) = xMin"
proof -
  let ?r = "estimateAbilityByGridSearchMAP evaluations ALPHA BETA_PARAM xMin xMax g"
  have len: "length (logPosteriors ?r) = Suc g"
    using bestAbility_cases(1,2)[OF ne, of ALPHA BETA_PARAM xMin xMax g] by simp
  have "validIndices (logPosteriors ?r) = []"
  proof (rule ccontr)
    assume "validIndices (logPosteriors ?r) \<noteq> []"
    then obtain x where x: "x \<in> set (validIndices (logPosteriors ?r))" by (cases "validIndices (logPosteriors ?r)") auto
    from validIndices_memD[OF x] len all show False by (metis isFinite.simps(3) less_Suc_eq_le)
  qed
  then show ?thesis using bestAbility_cases(3)[OF ne] by simp
qed

subsection \<open>Rounding to double precision\<close>

lemma round_half_even_int [simp]: "round_half_even (of_int m) = m"
  by (simp add: round_half_even_def)

lemma binade_eq:
  assumes "2 powi k \<le> \<bar>x\<bar>" "\<bar>x\<bar> < 2 powi (k + 1)" "- 1022 \<le> k"
  shows "binade x = k"
proof -
  have pos: "0 < \<bar>x\<bar>" using assms(1) by (smt (verit) zero_less_power_int)
  have e: "2 powr real_of_int k = (2::real) powi k" "2 powr real_of_int (k + 1) = (2::real) powi (k + 1)"
    by (rule powr_real_of_int'; simp)+
  have "2 powr real_of_int k \<le> \<bar>x\<bar> \<and> \<bar>x\<bar> < 2 powr real_of_int (k + 1)"
    unfolding e using assms(1,2) by blast
  moreover have "(1::real) < 2" by simp
  ultimately have "\<lfloor>log 2 \<bar>x\<bar>\<rfloor> = k"
    using floor_log_eq_powr_iff[OF pos, of 2 k] by blast
  then show ?thesis using assms(3) by (simp add: binade_def)
qed

lemma round64_in_binade:
  assumes "2 powi k \<le> \<bar>x\<bar>" "\<bar>x\<bar> < 2 powi (k + 1)" "- 1022 \<le> k"
    and "y = of_int (round_half_even (x / 2 powi (k - 52))) * 2 powi (k - 52)"
  shows "round64 x = (if 2 ^ 1024 \<le> \<bar>y\<bar> then (if 0 < x then PInf else NInf) else Fin y)"
proof -
  have b: "binade x = k" using binade_eq[OF assms(1,2,3)] .
  have x0: "x \<noteq> 0" using assms(1) by (smt (verit) zero_less_power_int)
  show ?thesis using x0 by (simp add: round64_def b Let_def assms(4))
qed

text \<open>A number \<open>m * 2 ^ (k - 52)\<close> of the binade \<open>k\<close> is a double and is not changed.\<close>

lemma round64_double:
  assumes "x = of_int m * 2 powi (k - 52)"
    and "2 powi k \<le> \<bar>x\<bar>" "\<bar>x\<bar> < 2 powi (k + 1)" "- 1022 \<le> k" "k \<le> 1023"
  shows "round64 x = Fin x"
proof -
  have b: "binade x = k" using binade_eq[OF assms(2,3,4)] .
  have x0: "x \<noteq> 0" using assms(2) by (smt (verit) zero_less_power_int)
  have q: "(2::real) powi (k - 52) \<noteq> 0" by simp
  have "x / 2 powi (k - 52) = of_int m" using assms(1) q by simp
  then have y: "of_int (round_half_even (x / 2 powi (binade x - 52))) * 2 powi (binade x - 52) = x"
    unfolding b using assms(1) by simp
  have "(2::real) powi (k + 1) \<le> 2 powi 1024"
    using assms(5) by (intro power_int_increasing) simp_all
  then have "\<bar>x\<bar> < 2 ^ 1024" using assms(3) by simp
  then show ?thesis using x0 y by (simp add: round64_def Let_def)
qed

lemma round64_values:
  "round64 1 = Fin 1"
  "round64 (1 / 2) = Fin (1 / 2)"
  "round64 5 = Fin 5"
  "round64 7 = Fin 7"
  "round64 (1 / 2 ^ 52) = Fin (1 / 2 ^ 52)"
  "round64 (1 / 2 ^ 53) = Fin (1 / 2 ^ 53)"
  "round64 (1 + 1 / 2 ^ 52) = Fin (1 + 1 / 2 ^ 52)"
proof -
  show "round64 1 = Fin 1" by (rule round64_double[of _ "2 ^ 52" 0]) simp_all
  show "round64 (1 / 2) = Fin (1 / 2)" by (rule round64_double[of _ "2 ^ 52" "- 1"]) simp_all
  show "round64 5 = Fin 5" by (rule round64_double[of _ "5 * 2 ^ 50" 2]) simp_all
  show "round64 7 = Fin 7" by (rule round64_double[of _ "7 * 2 ^ 50" 2]) simp_all
  show "round64 (1 / 2 ^ 52) = Fin (1 / 2 ^ 52)" by (rule round64_double[of _ "2 ^ 52" "- 52"]) simp_all
  show "round64 (1 / 2 ^ 53) = Fin (1 / 2 ^ 53)" by (rule round64_double[of _ "2 ^ 52" "- 53"]) simp_all
  show "round64 (1 + 1 / 2 ^ 52) = Fin (1 + 1 / 2 ^ 52)"
    by (rule round64_double[of _ "2 ^ 52 + 1" 0]) simp_all
qed

text \<open>\<open>1 + 2 ^ -53\<close> lies half way between the doubles \<open>1\<close> and \<open>1 + 2 ^ -52\<close> and is rounded
  to the even one.\<close>

lemma round64_tie: "round64 (1 + 1 / 2 ^ 53) = Fin 1"
  by (subst round64_in_binade[of 0 _ 1]) (simp_all add: round_half_even_def)

text \<open>\<open>2 ^ 1024\<close> is beyond the largest double.\<close>

lemma round64_overflow: "round64 (2 ^ 1024) = PInf"
proof -
  have "round_half_even (2 ^ 52) = 2 ^ 52" using round_half_even_int[of "2 ^ 52"] by simp
  then show ?thesis by (subst round64_in_binade[of 1024 _ "2 ^ 1024"]) simp_all
qed

subsection \<open>The estimator in an arbitrary arithmetic\<close>

lemma rounded_exact [simp]: "rounded Fin x = x"
  by (cases x) (simp_all add: rounded_def)

lemma exact_ops [simp]:
  "r_add exact = n_add" "r_sub exact = n_sub" "r_mul exact = n_mul" "r_div exact = n_div"
  "fexp exact = n_exp" "flog exact = n_log" "fround exact = Fin"
  by (simp_all add: fun_eq_iff r_add_def r_sub_def r_mul_def r_div_def exact_def)

lemma exact_estimator:
  "sigmoid_fp exact = sigmoid"
  "itemLikelihood_fp exact = itemLikelihood"
  "logLikelihood_fp exact = logLikelihood"
  "logPrior_fp exact = logPrior"
  "gridAbilities_fp exact = gridAbilities"
  "estimateAbilityByGridSearchMAP_fp exact = estimateAbilityByGridSearchMAP"
proof -
  show s: "sigmoid_fp exact = sigmoid"
    by (simp add: fun_eq_iff sigmoid_fp_def sigmoid_def)
  show i: "itemLikelihood_fp exact = itemLikelihood"
    by (simp add: fun_eq_iff itemLikelihood_fp_def itemLikelihood_def s Let_def)
  show l: "logLikelihood_fp exact = logLikelihood"
    by (simp add: fun_eq_iff logLikelihood_fp_def logLikelihood_def i)
  show p: "logPrior_fp exact = logPrior"
    by (simp add: fun_eq_iff logPrior_fp_def logPrior_def Let_def)
  show g: "gridAbilities_fp exact = gridAbilities"
    by (simp add: fun_eq_iff gridAbilities_fp_def gridAbilities_def)
  show "estimateAbilityByGridSearchMAP_fp exact = estimateAbilityByGridSearchMAP"
    by (simp add: fun_eq_iff estimateAbilityByGridSearchMAP_fp_def estimateAbilityByGridSearchMAP_def
        l p g Let_def)
qed

lemma rounded_finite: "isFinite (rounded r x) \<Longrightarrow> isFinite x"
  by (cases x) (simp_all add: rounded_def)

lemma r_add_finite: "isFinite (r_add ar x y) \<Longrightarrow> isFinite x \<and> isFinite y"
  unfolding r_add_def using rounded_finite n_add_finite by blast

lemma n_eq_sym: "n_eq x y = n_eq y x"
  by (cases x; cases y) auto

lemma logPrior_fp_finite_range:
  assumes "isFinite (logPrior_fp ar x ALPHA BETA_PARAM xMin xMax)"
  shows "n_lt xMin x \<and> n_lt x xMax"
proof -
  have "n_le xMin x \<and> n_le x xMax \<and> \<not> n_eq x xMin \<and> \<not> n_eq x xMax"
    using assms by (auto simp: logPrior_fp_def Let_def split: if_splits)
  then show ?thesis using n_eq_sym[of x xMin] by (auto simp: n_le_def)
qed

lemma length_gridAbilities_fp [simp]: "length (gridAbilities_fp ar xMin xMax g) = Suc g"
  by (simp add: gridAbilities_fp_def)

lemma logPosteriors_fp_eq:
  "map (\<lambda>(ll, i). r_add ar ll (map f xs ! i)) (zip (map h xs) [0 ..< length (map h xs)])
     = map (\<lambda>x. r_add ar (h x) (f x)) xs"
  by (rule nth_equalityI) auto

lemma estimate_fp_nonempty:
  assumes "evaluations \<noteq> []"
  shows "estimateAbilityByGridSearchMAP_fp ar evaluations ALPHA BETA_PARAM xMin xMax g =
     (let abs = gridAbilities_fp ar xMin xMax g;
          lps = map (\<lambda>ab. r_add ar (logLikelihood_fp ar ab evaluations)
                            (logPrior_fp ar ab ALPHA BETA_PARAM xMin xMax)) abs;
          valid = validIndices lps
      in \<lparr> bestAbility = (if valid = [] then xMin else abs ! snd (maxItem valid)),
           abilities = abs,
           logPriors = map (\<lambda>ab. logPrior_fp ar ab ALPHA BETA_PARAM xMin xMax) abs,
           logLikelihoods = map (\<lambda>ab. logLikelihood_fp ar ab evaluations) abs,
           logPosteriors = lps \<rparr>)"
  using assms unfolding estimateAbilityByGridSearchMAP_fp_def Let_def logPosteriors_fp_eq by simp

lemma estimate_fp_cases:
  fixes ar evaluations ALPHA BETA_PARAM xMin xMax g
  assumes "evaluations \<noteq> []"
  defines "r \<equiv> estimateAbilityByGridSearchMAP_fp ar evaluations ALPHA BETA_PARAM xMin xMax g"
  shows "abilities r = gridAbilities_fp ar xMin xMax g"
    and "logPriors r = map (\<lambda>ab. logPrior_fp ar ab ALPHA BETA_PARAM xMin xMax) (abilities r)"
    and "logLikelihoods r = map (\<lambda>ab. logLikelihood_fp ar ab evaluations) (abilities r)"
    and "logPosteriors r = map (\<lambda>ab. r_add ar (logLikelihood_fp ar ab evaluations)
                            (logPrior_fp ar ab ALPHA BETA_PARAM xMin xMax)) (abilities r)"
    and "validIndices (logPosteriors r) = [] \<Longrightarrow> bestAbility r = xMin"
    and "validIndices (logPosteriors r) \<noteq> [] \<Longrightarrow>
           bestAbility r = abilities r ! snd (maxItem (validIndices (logPosteriors r)))"
    and "length (logPosteriors r) = Suc g"
  unfolding r_def estimate_fp_nonempty[OF assms(1)] Let_def by simp_all

lemma validIndices_empty_iff:
  "validIndices lps = [] \<longleftrightarrow> (\<forall>j<length lps. \<not> isFinite (lps ! j))"
proof
  assume e: "validIndices lps = []"
  show "\<forall>j<length lps. \<not> isFinite (lps ! j)"
  proof (intro allI impI notI)
    fix j assume "j < length lps" "isFinite (lps ! j)"
    then have "(lps ! j, j) \<in> set (validIndices lps)" by (simp add: validIndices_set)
    then show False using e by simp
  qed
next
  assume a: "\<forall>j<length lps. \<not> isFinite (lps ! j)"
  show "validIndices lps = []"
  proof (rule ccontr)
    assume "validIndices lps \<noteq> []"
    then obtain x where x: "x \<in> set (validIndices lps)" by (cases "validIndices lps") auto
    from validIndices_memD[OF x] a show False by blast
  qed
qed

text \<open>The selected index: valid, maximal among the valid ones, and the first such.\<close>

lemma maxItem_selected:
  assumes "validIndices lps \<noteq> []"
  defines "k \<equiv> snd (maxItem (validIndices lps))"
  shows "k < length lps" "isFinite (lps ! k)"
    and "\<forall>j<length lps. isFinite (lps ! j) \<longrightarrow> n_le (lps ! j) (lps ! k)"
proof -
  let ?v = "validIndices lps"
  have mem: "maxItem ?v \<in> set ?v" using maxItem_mem[OF assms(1)] .
  have k: "isFinite (lps ! k)" "k < length lps" "fst (maxItem ?v) = lps ! k"
    using validIndices_memD[OF mem] by (simp_all add: k_def)
  show "k < length lps" "isFinite (lps ! k)" using k by simp_all
  have fin: "\<forall>x\<in>set ?v. isFinite (fst x)" using validIndices_set[of _ lps] by blast
  show "\<forall>j<length lps. isFinite (lps ! j) \<longrightarrow> n_le (lps ! j) (lps ! k)"
  proof (intro allI impI)
    fix j assume "j < length lps" "isFinite (lps ! j)"
    then have "(lps ! j, j) \<in> set ?v" by (simp add: validIndices_set)
    from maxItem_ge[OF fin this] show "n_le (lps ! j) (lps ! k)" using k(3) by simp
  qed
qed

lemma n_lt_imp_le: "n_lt x y \<Longrightarrow> n_le x y"
  by (simp add: n_le_def)

lemma n_lt_neq: "n_lt x y \<Longrightarrow> x \<noteq> y"
  by (cases x; cases y) auto

lemma n_le_refl_lt: "n_lt x y \<Longrightarrow> n_le x x"
  by (cases x; cases y) (auto simp: n_le_def)

lemma gridAbilities_fp_nth:
  assumes "j \<le> g"
  shows "gridAbilities_fp ar xMin xMax g ! j
       = r_add ar xMin (r_mul ar (r_div ar (Fin (real j)) (Fin (real g))) (r_sub ar xMax xMin))"
proof -
  have j: "j < Suc g" using assms by simp
  have "[0 ..< Suc g] ! j = j" using nth_upt[of 0 j "Suc g"] j by simp
  then show ?thesis unfolding gridAbilities_fp_def using j by (simp del: upt_Suc)
qed

lemma posterior_fp_nth:
  assumes ne: "evaluations \<noteq> []" and j: "j \<le> g"
  shows "logPosteriors (estimateAbilityByGridSearchMAP_fp ar evaluations ALPHA BETA_PARAM xMin xMax g) ! j
       = r_add ar (logLikelihoods (estimateAbilityByGridSearchMAP_fp ar evaluations ALPHA BETA_PARAM xMin xMax g) ! j)
                  (logPriors (estimateAbilityByGridSearchMAP_fp ar evaluations ALPHA BETA_PARAM xMin xMax g) ! j)"
    and "logLikelihoods (estimateAbilityByGridSearchMAP_fp ar evaluations ALPHA BETA_PARAM xMin xMax g) ! j
       = logLikelihood_fp ar
           (abilities (estimateAbilityByGridSearchMAP_fp ar evaluations ALPHA BETA_PARAM xMin xMax g) ! j)
           evaluations"
    and "logPriors (estimateAbilityByGridSearchMAP_fp ar evaluations ALPHA BETA_PARAM xMin xMax g) ! j
       = logPrior_fp ar
           (abilities (estimateAbilityByGridSearchMAP_fp ar evaluations ALPHA BETA_PARAM xMin xMax g) ! j)
           ALPHA BETA_PARAM xMin xMax"
  using estimate_fp_cases(1-4)[OF ne, of ar ALPHA BETA_PARAM xMin xMax g] j by simp_all

lemma finite_posterior_fp:
  assumes ne: "evaluations \<noteq> []" and j: "j \<le> g"
    and fin: "isFinite (logPosteriors (estimateAbilityByGridSearchMAP_fp ar evaluations ALPHA BETA_PARAM xMin xMax g) ! j)"
  shows "isFinite (logLikelihoods (estimateAbilityByGridSearchMAP_fp ar evaluations ALPHA BETA_PARAM xMin xMax g) ! j)"
    and "isFinite (logPriors (estimateAbilityByGridSearchMAP_fp ar evaluations ALPHA BETA_PARAM xMin xMax g) ! j)"
    and "n_lt xMin (abilities (estimateAbilityByGridSearchMAP_fp ar evaluations ALPHA BETA_PARAM xMin xMax g) ! j)"
    and "n_lt (abilities (estimateAbilityByGridSearchMAP_fp ar evaluations ALPHA BETA_PARAM xMin xMax g) ! j) xMax"
proof -
  let ?r = "estimateAbilityByGridSearchMAP_fp ar evaluations ALPHA BETA_PARAM xMin xMax g"
  have both: "isFinite (logLikelihoods ?r ! j) \<and> isFinite (logPriors ?r ! j)"
    using fin r_add_finite unfolding posterior_fp_nth(1)[OF ne j] by blast
  then show "isFinite (logLikelihoods ?r ! j)" "isFinite (logPriors ?r ! j)" by simp_all
  have "isFinite (logPrior_fp ar (abilities ?r ! j) ALPHA BETA_PARAM xMin xMax)"
    using both posterior_fp_nth(3)[OF ne j, of ar ALPHA BETA_PARAM xMin xMax] by simp
  from logPrior_fp_finite_range[OF this]
  show "n_lt xMin (abilities ?r ! j)" "n_lt (abilities ?r ! j) xMax" by simp_all
qed

lemma selected_fp:
  assumes ne: "evaluations \<noteq> []"
    and ex: "\<exists>j\<le>g. isFinite (logPosteriors (estimateAbilityByGridSearchMAP_fp ar evaluations ALPHA BETA_PARAM xMin xMax g) ! j)"
  shows "\<exists>k\<le>g. bestAbility (estimateAbilityByGridSearchMAP_fp ar evaluations ALPHA BETA_PARAM xMin xMax g)
              = abilities (estimateAbilityByGridSearchMAP_fp ar evaluations ALPHA BETA_PARAM xMin xMax g) ! k
          \<and> isFinite (logPosteriors (estimateAbilityByGridSearchMAP_fp ar evaluations ALPHA BETA_PARAM xMin xMax g) ! k)
          \<and> (\<forall>j\<le>g. isFinite (logPosteriors (estimateAbilityByGridSearchMAP_fp ar evaluations ALPHA BETA_PARAM xMin xMax g) ! j)
                \<longrightarrow> n_le (logPosteriors (estimateAbilityByGridSearchMAP_fp ar evaluations ALPHA BETA_PARAM xMin xMax g) ! j)
                         (logPosteriors (estimateAbilityByGridSearchMAP_fp ar evaluations ALPHA BETA_PARAM xMin xMax g) ! k))"
proof -
  let ?r = "estimateAbilityByGridSearchMAP_fp ar evaluations ALPHA BETA_PARAM xMin xMax g"
  let ?lps = "logPosteriors ?r"
  have len: "length ?lps = Suc g" using estimate_fp_cases(7)[OF ne] .
  have nonempty: "validIndices ?lps \<noteq> []"
    using ex len by (auto simp: validIndices_empty_iff less_Suc_eq_le)
  let ?k = "snd (maxItem (validIndices ?lps))"
  note sel = maxItem_selected[OF nonempty]
  have "?k \<le> g" using sel(1) len by simp
  moreover have "bestAbility ?r = abilities ?r ! ?k" using estimate_fp_cases(6)[OF ne nonempty] .
  moreover have "\<forall>j\<le>g. isFinite (?lps ! j) \<longrightarrow> n_le (?lps ! j) (?lps ! ?k)"
    using sel(3) len by (simp add: less_Suc_eq_le)
  ultimately show ?thesis using sel(2) by blast
qed

lemma fallback_fp:
  assumes ne: "evaluations \<noteq> []"
    and none: "\<forall>j\<le>g. \<not> isFinite (logPosteriors (estimateAbilityByGridSearchMAP_fp ar evaluations ALPHA BETA_PARAM xMin xMax g) ! j)"
  shows "validIndices (logPosteriors (estimateAbilityByGridSearchMAP_fp ar evaluations ALPHA BETA_PARAM xMin xMax g)) = []"
    and "bestAbility (estimateAbilityByGridSearchMAP_fp ar evaluations ALPHA BETA_PARAM xMin xMax g) = xMin"
proof -
  let ?r = "estimateAbilityByGridSearchMAP_fp ar evaluations ALPHA BETA_PARAM xMin xMax g"
  have len: "length (logPosteriors ?r) = Suc g" using estimate_fp_cases(7)[OF ne] .
  show e: "validIndices (logPosteriors ?r) = []"
    using none len by (simp add: validIndices_empty_iff less_Suc_eq_le)
  show "bestAbility ?r = xMin" using estimate_fp_cases(5)[OF ne e] .
qed

text \<open>
  Claim C2 (as amended). In every arithmetic, for a non-empty evaluation list and
  \<open>xMin < xMax\<close>: \<open>bestAbility\<close> lies within \<open>[xMin, xMax]\<close>; the grid has \<open>gridPoints + 1\<close>
  points, the point of index \<open>j\<close> being \<open>xMin + (j / gridPoints) * (xMax - xMin)\<close> as computed,
  and the entry \<open>j\<close> of \<open>logPosteriors\<close> being the log-posterior of that point; if some grid
  point has a finite log-posterior, \<open>bestAbility\<close> is a grid point with a finite log-posterior
  that is maximal among the finite ones; and if no grid point has a finite log-posterior (so
  when all are \<open>-Infinity\<close>), \<open>bestAbility\<close> is \<open>xMin\<close>. For the empty list the value is the
  closed form of C3, as computed.
\<close>

theorem gridSearchMAP_bestAbility:
  assumes "evaluations \<noteq> []" and "n_lt xMin xMax"
  shows "let r = estimateAbilityByGridSearchMAP_fp ar evaluations ALPHA BETA_PARAM xMin xMax g in
     n_le xMin (bestAbility r) \<and> n_le (bestAbility r) xMax
     \<and> length (abilities r) = g + 1
     \<and> (\<forall>j\<le>g. abilities r ! j
                  = r_add ar xMin (r_mul ar (r_div ar (Fin (real j)) (Fin (real g))) (r_sub ar xMax xMin))
              \<and> logPosteriors r ! j
                  = r_add ar (logLikelihood_fp ar (abilities r ! j) evaluations)
                      (logPrior_fp ar (abilities r ! j) ALPHA BETA_PARAM xMin xMax))
     \<and> ((\<exists>j\<le>g. isFinite (logPosteriors r ! j)) \<longrightarrow>
          (\<exists>k\<le>g. bestAbility r = abilities r ! k
             \<and> isFinite (logPosteriors r ! k)
             \<and> (\<forall>j\<le>g. isFinite (logPosteriors r ! j)
                   \<longrightarrow> n_le (logPosteriors r ! j) (logPosteriors r ! k))))
     \<and> ((\<forall>j\<le>g. \<not> isFinite (logPosteriors r ! j)) \<longrightarrow> bestAbility r = xMin)"
proof -
  let ?r = "estimateAbilityByGridSearchMAP_fp ar evaluations ALPHA BETA_PARAM xMin xMax g"
  note ne = assms(1)
  have grid: "\<forall>j\<le>g. abilities ?r ! j
                  = r_add ar xMin (r_mul ar (r_div ar (Fin (real j)) (Fin (real g))) (r_sub ar xMax xMin))
              \<and> logPosteriors ?r ! j
                  = r_add ar (logLikelihood_fp ar (abilities ?r ! j) evaluations)
                      (logPrior_fp ar (abilities ?r ! j) ALPHA BETA_PARAM xMin xMax)"
    using estimate_fp_cases(1)[OF ne, of ar ALPHA BETA_PARAM xMin xMax g] gridAbilities_fp_nth[of _ g ar xMin xMax]
      posterior_fp_nth[OF ne, of _ g ar ALPHA BETA_PARAM xMin xMax]
    by simp
  have len: "length (abilities ?r) = g + 1"
    using estimate_fp_cases(1)[OF ne, of ar ALPHA BETA_PARAM xMin xMax g] by simp
  have sel: "(\<exists>j\<le>g. isFinite (logPosteriors ?r ! j)) \<longrightarrow>
          (\<exists>k\<le>g. bestAbility ?r = abilities ?r ! k
             \<and> isFinite (logPosteriors ?r ! k)
             \<and> (\<forall>j\<le>g. isFinite (logPosteriors ?r ! j)
                   \<longrightarrow> n_le (logPosteriors ?r ! j) (logPosteriors ?r ! k)))"
    using selected_fp[OF ne] by blast
  have fb: "(\<forall>j\<le>g. \<not> isFinite (logPosteriors ?r ! j)) \<longrightarrow> bestAbility ?r = xMin"
    using fallback_fp(2)[OF ne] by blast
  have range: "n_le xMin (bestAbility ?r) \<and> n_le (bestAbility ?r) xMax"
  proof (cases "\<exists>j\<le>g. isFinite (logPosteriors ?r ! j)")
    case True
    with sel obtain k where k: "k \<le> g" "bestAbility ?r = abilities ?r ! k" "isFinite (logPosteriors ?r ! k)"
      by blast
    from finite_posterior_fp(3,4)[OF ne k(1,3)] show ?thesis
      unfolding k(2) by (simp add: n_lt_imp_le)
  next
    case False
    then have "bestAbility ?r = xMin" using fb by blast
    then show ?thesis using assms(2) n_lt_imp_le[OF assms(2)] n_le_refl_lt[OF assms(2)] by simp
  qed
  show ?thesis unfolding Let_def using range len grid sel fb by blast
qed

text \<open>The hypotheses of C2 hold at the caller's parameters, in double precision.\<close>

theorem gridSearchMAP_bestAbility_witness:
  "[\<lparr> level = 3, predictedMaxScore = 4 \<rparr>] \<noteq> [] \<and> n_lt (Fin 0) (Fin 4) \<and>
   n_le (Fin 0) (bestAbility (estimateAbilityByGridSearchMAP_fp binary64
       [\<lparr> level = 3, predictedMaxScore = 4 \<rparr>] (Fin 2) (Fin 5) (Fin 0) (Fin 4) 500)) \<and>
   n_le (bestAbility (estimateAbilityByGridSearchMAP_fp binary64
       [\<lparr> level = 3, predictedMaxScore = 4 \<rparr>] (Fin 2) (Fin 5) (Fin 0) (Fin 4) 500)) (Fin 4)"
proof -
  have h: "[\<lparr> level = 3, predictedMaxScore = 4 \<rparr>] \<noteq> []" "n_lt (Fin 0) (Fin 4)" by simp_all
  show ?thesis
    using gridSearchMAP_bestAbility[OF h, of binary64 "Fin 2" "Fin 5" 500] h
    unfolding Let_def by blast
qed

lemma binary64_ops:
  "r_add binary64 x y = rounded round64 (n_add x y)"
  "r_sub binary64 x y = rounded round64 (n_sub x y)"
  "r_mul binary64 x y = rounded round64 (n_mul x y)"
  "r_div binary64 x y = rounded round64 (n_div x y)"
  by (simp_all add: r_add_def r_sub_def r_mul_def r_div_def binary64_def)

lemma rounded_simps [simp]:
  "rounded r (Fin a) = r a" "rounded r PInf = PInf" "rounded r NInf = NInf" "rounded r NaN = NaN"
  by (simp_all add: rounded_def)

lemma round64_zero [simp]: "round64 0 = Fin 0"
  by (simp add: round64_def)

text \<open>
  Claim C2 as stated fails for the empty list, for which the closed form
  \<open>xMin + (xMax - xMin) * (ALPHA - 1) / (ALPHA + BETA_PARAM - 2)\<close> is returned as computed: in
  double precision, with \<open>ALPHA = 2\<close> and \<open>BETA_PARAM = 5\<close> on the domain
  \<open>[-2 ^ 1023, 2 ^ 1023]\<close>, the difference \<open>xMax - xMin = 2 ^ 1024\<close> overflows to
  \<^verbatim>\<open>Infinity\<close>, and so does \<open>bestAbility\<close>, which is then above \<open>xMax\<close>.
\<close>

theorem bestAbility_outside_counterexample:
  "n_lt (Fin (- (2 ^ 1023))) (Fin (2 ^ 1023))
   \<and> bestAbility (estimateAbilityByGridSearchMAP_fp binary64 [] (Fin 2) (Fin 5)
        (Fin (- (2 ^ 1023))) (Fin (2 ^ 1023)) 500) = PInf
   \<and> \<not> n_le (bestAbility (estimateAbilityByGridSearchMAP_fp binary64 [] (Fin 2) (Fin 5)
        (Fin (- (2 ^ 1023))) (Fin (2 ^ 1023)) 500)) (Fin (2 ^ 1023))"
proof -
  define M :: real where "M = 2 ^ 1023"
  have "M - (- M) = 2 ^ 1024" by (simp add: M_def)
  then have "round64 (M - (- M)) = PInf" by (simp only: round64_overflow)
  then have range: "r_sub binary64 (Fin M) (Fin (- M)) = PInf"
    by (simp add: binary64_ops)
  have a: "r_sub binary64 (Fin 2) (Fin 1) = Fin 1"
    by (simp add: binary64_ops round64_values)
  have b: "r_sub binary64 (r_add binary64 (Fin 2) (Fin 5)) (Fin 2) = Fin 5"
    by (simp add: binary64_ops round64_values)
  have m: "r_mul binary64 PInf (Fin 1) = PInf" "r_div binary64 PInf (Fin 5) = PInf"
    "r_add binary64 (Fin (- M)) PInf = PInf"
    by (simp_all add: binary64_ops)
  have best: "bestAbility (estimateAbilityByGridSearchMAP_fp binary64 [] (Fin 2) (Fin 5)
        (Fin (- M)) (Fin M) 500) = PInf"
    unfolding estimateAbilityByGridSearchMAP_fp_def by (simp add: range a b m)
  have "(- M) < M" by (simp add: M_def)
  then have "n_lt (Fin (- M)) (Fin M)" by simp
  then show ?thesis using best unfolding M_def by (simp add: n_le_def)
qed



lemma interior_bestAbility:
  assumes ne: "evaluations \<noteq> []" and lt: "xmin < xmax" and g: "2 \<le> g"
  shows "\<exists>k. 0 < k \<and> k < g
          \<and> bestAbility (estimateAbilityByGridSearchMAP evaluations ALPHA (Fin b) (Fin xmin) (Fin xmax) g)
              = abilities (estimateAbilityByGridSearchMAP evaluations ALPHA (Fin b) (Fin xmin) (Fin xmax) g) ! k
          \<and> bestAbility (estimateAbilityByGridSearchMAP evaluations ALPHA (Fin b) (Fin xmin) (Fin xmax) g)
              = Fin (gridPoint xmin xmax g k)
          \<and> (\<forall>j. 0 < j \<and> j < g \<longrightarrow>
                realLogPosterior evaluations b xmin xmax (gridPoint xmin xmax g j)
                  \<le> realLogPosterior evaluations b xmin xmax (gridPoint xmin xmax g k))"
proof -
  let ?r = "estimateAbilityByGridSearchMAP evaluations ALPHA (Fin b) (Fin xmin) (Fin xmax) g"
  have g0: "0 < g" using g by simp
  have nth: "\<And>i. i \<le> g \<Longrightarrow> logPosteriors ?r ! i =
     (if 0 < i \<and> i < g then Fin (realLogPosterior evaluations b xmin xmax (gridPoint xmin xmax g i)) else NInf)"
    using logPosteriors_nth[OF ne g0 _ lt] by simp
  have "isFinite (logPosteriors ?r ! 1)" using nth[of 1] g by simp
  from bestAbility_argmax[OF ne _ this] g
  obtain k where k: "k \<le> g" "bestAbility ?r = abilities ?r ! k" "isFinite (logPosteriors ?r ! k)"
      "\<forall>j\<le>g. isFinite (logPosteriors ?r ! j) \<longrightarrow> n_le (logPosteriors ?r ! j) (logPosteriors ?r ! k)"
    by auto
  have kin: "0 < k \<and> k < g" using nth[OF k(1)] k(3) by (auto split: if_splits)
  have ab: "abilities ?r ! k = Fin (gridPoint xmin xmax g k)"
    using bestAbility_cases(1)[OF ne, of ALPHA "Fin b" "Fin xmin" "Fin xmax" g]
      gridAbilities_nth[OF g0 k(1), of xmin xmax] by simp
  have mx: "realLogPosterior evaluations b xmin xmax (gridPoint xmin xmax g j)
                  \<le> realLogPosterior evaluations b xmin xmax (gridPoint xmin xmax g k)"
    if "0 < j \<and> j < g" for j
  proof -
    have jj: "j \<le> g" "logPosteriors ?r ! j = Fin (realLogPosterior evaluations b xmin xmax (gridPoint xmin xmax g j))"
      using nth[of j] that by simp_all
    then have "isFinite (logPosteriors ?r ! j)" by simp
    then have "n_le (logPosteriors ?r ! j) (logPosteriors ?r ! k)"
      using k(4) jj(1) by blast
    then show ?thesis using nth[of j] nth[OF k(1)] that kin by simp
  qed
  show ?thesis using kin k(2) ab mx by (intro exI[of _ k]) simp
qed

text \<open>
  In exact arithmetic, for a non-empty evaluation list, \<open>xMin < xMax\<close>, \<open>gridPoints \<ge> 2\<close>
  and a finite \<open>BETA_PARAM\<close>: the log-likelihood is finite at every finite ability, the
  log-prior is finite strictly inside the domain, every interior grid point has a finite
  log-posterior, and \<open>bestAbility\<close> is an interior grid point.
\<close>

lemma interior_grid_point_finite_exact:
  assumes "evaluations \<noteq> []" "xmin < xmax" "2 \<le> g"
  shows "let r = estimateAbilityByGridSearchMAP evaluations ALPHA (Fin b) (Fin xmin) (Fin xmax) g in
     (\<forall>x. isFinite (logLikelihood (Fin x) evaluations))
     \<and> (\<forall>x. xmin < x \<and> x < xmax \<longrightarrow> isFinite (logPrior (Fin x) ALPHA (Fin b) (Fin xmin) (Fin xmax)))
     \<and> (\<exists>i. 0 < i \<and> i < g \<and> isFinite (logPosteriors r ! i))
     \<and> validIndices (logPosteriors r) \<noteq> []
     \<and> (\<exists>k x. 0 < k \<and> k < g \<and> bestAbility r = abilities r ! k \<and> bestAbility r = Fin x
            \<and> xmin < x \<and> x < xmax)
     \<and> bestAbility r \<noteq> Fin xmax \<and> bestAbility r \<noteq> Fin xmin"
proof -
  let ?r = "estimateAbilityByGridSearchMAP evaluations ALPHA (Fin b) (Fin xmin) (Fin xmax) g"
  have g0: "0 < g" "1 \<le> g" "0 < (1::nat) \<and> 1 < g" using assms(3) by simp_all
  have one: "isFinite (logPosteriors ?r ! 1)"
    using logPosteriors_nth[OF assms(1) g0(1) g0(2) assms(2), of ALPHA b] g0(3) by simp
  have len: "length (logPosteriors ?r) = Suc g"
    using bestAbility_cases(1,2)[OF assms(1), of ALPHA "Fin b" "Fin xmin" "Fin xmax" g] by simp
  have "(logPosteriors ?r ! 1, 1) \<in> set (validIndices (logPosteriors ?r))"
    using one len g0 by (simp add: validIndices_set)
  then have valid: "validIndices (logPosteriors ?r) \<noteq> []" by auto
  from interior_bestAbility[OF assms, of ALPHA b]
  obtain k where k: "0 < k" "k < g" "bestAbility ?r = abilities ?r ! k"
     "bestAbility ?r = Fin (gridPoint xmin xmax g k)" by blast
  have inside: "xmin < gridPoint xmin xmax g k" "gridPoint xmin xmax g k < xmax"
    using gridPoint_interior[OF assms(2) k(1,2)] .
  have ex: "\<exists>k x. 0 < k \<and> k < g \<and> bestAbility ?r = abilities ?r ! k \<and> bestAbility ?r = Fin x
            \<and> xmin < x \<and> x < xmax"
    using k inside by blast
  have ne: "bestAbility ?r \<noteq> Fin xmax \<and> bestAbility ?r \<noteq> Fin xmin" using k(4) inside by simp
  have "\<exists>i. 0 < i \<and> i < g \<and> isFinite (logPosteriors ?r ! i)" using one g0(3) by blast
  then show ?thesis unfolding Let_def using valid ex ne by (simp add: logPrior_Fin)
qed



lemma boundary_posterior_fp:
  assumes "n_eq x xMin \<or> n_eq x xMax"
  shows "\<not> isFinite (r_add ar ll (logPrior_fp ar x ALPHA BETA_PARAM xMin xMax))"
proof -
  have "logPrior_fp ar x ALPHA BETA_PARAM xMin xMax = NInf"
    using assms by (simp add: logPrior_fp_def Let_def)
  then show ?thesis using r_add_finite[of ar ll NInf] by auto
qed





subsection \<open>The sigmoid and its logarithm\<close>

lemma realSigmoid_pos: "0 < realSigmoid z"
  by (simp add: realSigmoid_def add_pos_pos)

lemma realSigmoid_less_one: "realSigmoid z < 1"
  by (simp add: realSigmoid_def add_pos_pos)

lemma realSigmoid_mono: "x \<le> y \<Longrightarrow> realSigmoid x \<le> realSigmoid y"
  by (simp add: realSigmoid_def frac_le add_pos_pos)

lemma realSigmoid_neg: "1 - realSigmoid z = realSigmoid (- z)"
proof -
  have p: "0 < exp z" "0 < 1 + exp z" "0 < 1 + exp (- z)" by (simp_all add: add_pos_pos)
  have "exp (- z) = 1 / exp z" by (simp add: exp_minus field_simps)
  then show ?thesis using p unfolding realSigmoid_def by (simp add: field_simps)
qed

lemma realSigmoid_half: "0 \<le> z \<Longrightarrow> 1 / 2 \<le> realSigmoid z"
proof -
  assume "0 \<le> z"
  then have "exp (- z) \<le> 1" by simp
  then show ?thesis unfolding realSigmoid_def by (simp add: field_simps add_pos_pos)
qed

lemma realSigmoid_diff_factor:
  "realSigmoid z - realSigmoid (z - 1) = (1 - exp (- 1)) * realSigmoid z * realSigmoid (1 - z)"
proof -
  define a where "a = exp (- z)"
  define c where "c = exp (1::real)"
  have pos: "0 < a" "0 < c" by (simp_all add: a_def c_def)
  have e1: "exp (- (z - 1)) = c * a" by (simp add: a_def c_def exp_diff exp_minus field_simps)
  have e2: "exp (- (1 - z)) = 1 / (c * a)" by (simp add: a_def c_def exp_diff exp_minus field_simps)
  have e3: "exp (- 1 :: real) = 1 / c" by (simp add: c_def exp_minus field_simps)
  have nz: "1 + a \<noteq> 0" "1 + c * a \<noteq> 0" "c * a \<noteq> 0" "c \<noteq> 0" "a \<noteq> 0"
    using pos by (simp_all add: add_pos_pos less_imp_neq[symmetric])
  have r1: "1 / (1 + 1 / (c * a)) = c * a / (1 + c * a)" using nz by (simp add: field_simps)
  have r2: "1 - 1 / c = (c - 1) / c" using nz by (simp add: field_simps)
  have lhs: "1 / (1 + a) - 1 / (1 + c * a) = (c - 1) * a / ((1 + a) * (1 + c * a))"
  proof -
    have "1 / (1 + a) - 1 / (1 + c * a) = ((1 + c * a) - (1 + a)) / ((1 + a) * (1 + c * a))"
      using nz by (simp add: diff_frac_eq)
    also have "(1 + c * a) - (1 + a) = (c - 1) * a" by (simp add: algebra_simps)
    finally show ?thesis .
  qed
  have rhs: "(c - 1) / c * (1 / (1 + a)) * (c * a / (1 + c * a)) = (c - 1) * a / ((1 + a) * (1 + c * a))"
    using nz by simp
  show ?thesis
    unfolding realSigmoid_def e1 e2 e3 a_def[symmetric] r1 r2 lhs rhs ..
qed

lemma exp_convex_comb:
  fixes s d :: real
  assumes "0 \<le> s" "s \<le> 1"
  shows "exp (s * d) \<le> (1 - s) + s * exp d"
proof -
  have a: "1 + (- (s * d)) \<le> exp (- (s * d))" by (rule exp_ge_add_one_self)
  have b: "1 + (1 - s) * d \<le> exp ((1 - s) * d)" by (rule exp_ge_add_one_self)
  have "(1 - s) * (1 + (- (s * d))) \<le> (1 - s) * exp (- (s * d))"
    using a assms by (intro mult_left_mono) simp_all
  moreover have "s * (1 + (1 - s) * d) \<le> s * exp ((1 - s) * d)"
    using b assms by (intro mult_left_mono) simp_all
  moreover have "(1 - s) * (1 + (- (s * d))) + s * (1 + (1 - s) * d) = 1"
    by (simp add: algebra_simps)
  ultimately have one: "1 \<le> (1 - s) * exp (- (s * d)) + s * exp ((1 - s) * d)" by linarith
  have "exp (s * d) * 1 \<le> exp (s * d) * ((1 - s) * exp (- (s * d)) + s * exp ((1 - s) * d))"
    using one by (intro mult_left_mono) simp_all
  also have "\<dots> = (1 - s) * (exp (s * d) * exp (- (s * d))) + s * (exp (s * d) * exp ((1 - s) * d))"
    by (simp add: algebra_simps)
  also have "exp (s * d) * exp (- (s * d)) = 1" by (simp add: exp_minus)
  also have "exp (s * d) * exp ((1 - s) * d) = exp d"
    by (simp add: exp_add[symmetric] algebra_simps)
  finally show ?thesis by simp
qed

text \<open>The logarithm of the sigmoid is concave: it lies below its tangents.\<close>

lemma ln_realSigmoid_tangent:
  "(v - u) * (1 - realSigmoid v) \<le> ln (realSigmoid v) - ln (realSigmoid u)"
proof -
  define s where "s = 1 - realSigmoid v"
  define d where "d = v - u"
  have s: "0 \<le> s" "s \<le> 1" using realSigmoid_pos[of v] realSigmoid_less_one[of v] by (simp_all add: s_def)
  have pv: "0 < 1 + exp (- v)" "0 < 1 + exp (- u)" by (simp_all add: add_pos_pos)
  have sv: "s = exp (- v) / (1 + exp (- v))"
    using pv unfolding s_def realSigmoid_def by (simp add: field_simps)
  have eu: "exp (- u) = exp (- v) * exp d" by (simp add: d_def exp_add[symmetric])
  have ratio: "realSigmoid v / realSigmoid u = (1 - s) + s * exp d"
    using pv unfolding sv realSigmoid_def eu by (simp add: field_simps)
  have "exp (s * d) \<le> realSigmoid v / realSigmoid u"
    using exp_convex_comb[OF s, of d] ratio by simp
  then have "s * d \<le> ln (realSigmoid v / realSigmoid u)"
    using realSigmoid_pos[of v] realSigmoid_pos[of u]
    by (metis divide_pos_pos exp_gt_zero ln_exp ln_mono)
  then show ?thesis
    using realSigmoid_pos[of v] realSigmoid_pos[of u]
    by (simp add: ln_div s_def d_def mult.commute)
qed

lemma ln_diff_ge:
  fixes x y :: real
  assumes "0 < x" "0 < y"
  shows "(y - x) / y \<le> ln y - ln x"
proof -
  have "ln (x / y) \<le> x / y - 1" using assms by (intro ln_le_minus_one) simp
  then have "ln x - ln y \<le> x / y - 1" using assms by (simp add: ln_div)
  moreover have "x / y - 1 = - ((y - x) / y)" using assms by (simp add: field_simps)
  ultimately show ?thesis by linarith
qed

lemma ln_diff_le:
  fixes x y :: real
  assumes "0 < x" "0 < y"
  shows "ln y - ln x \<le> (y - x) / x"
proof -
  have "(x - y) / x \<le> ln x - ln y" using ln_diff_ge[OF assms(2,1)] .
  moreover have "(x - y) / x = - ((y - x) / x)" by (simp add: diff_divide_distrib)
  ultimately show ?thesis by linarith
qed

text \<open>Shifting the argument of the sigmoid down by more costs relatively less at larger
  arguments.\<close>

lemma realSigmoid_product_order:
  assumes "x \<le> y" "k \<le> k'"
  shows "realSigmoid (x - k') * realSigmoid (y - k) \<le> realSigmoid (y - k') * realSigmoid (x - k)"
proof -
  define A where "A = exp (- x)"
  define B where "B = exp (- y)"
  define P where "P = exp k"
  define Q where "Q = exp k'"
  have pos: "0 < A" "0 < B" "0 < P" "0 < Q" by (simp_all add: A_def B_def P_def Q_def)
  have ord: "B \<le> A" "P \<le> Q" using assms by (simp_all add: A_def B_def P_def Q_def)
  have e: "exp (- (x - k')) = Q * A" "exp (- (y - k)) = P * B"
          "exp (- (y - k')) = Q * B" "exp (- (x - k)) = P * A"
    by (simp_all add: A_def B_def P_def Q_def exp_add[symmetric])
  have "0 \<le> (Q - P) * (A - B)" using ord by simp
  then have "(1 + Q * B) * (1 + P * A) \<le> (1 + Q * A) * (1 + P * B)"
    by (simp add: algebra_simps)
  moreover have "0 < (1 + Q * B) * (1 + P * A)" "0 < (1 + Q * A) * (1 + P * B)"
    using pos by (simp_all add: add_pos_pos)
  ultimately have "1 / ((1 + Q * A) * (1 + P * B)) \<le> 1 / ((1 + Q * B) * (1 + P * A))"
    by (intro divide_left_mono) simp_all
  then show ?thesis unfolding realSigmoid_def e by simp
qed

lemma exp_nat_le_3: "exp (real n) \<le> 3 ^ n"
proof -
  have "exp (real n) = exp 1 ^ n" using exp_of_nat_mult[of n "1::real"] by simp
  also have "\<dots> \<le> 3 ^ n" using exp_le by (intro power_mono) simp_all
  finally show ?thesis .
qed

lemma exp_minus_one_le_half: "exp (- 1 :: real) \<le> 1 / 2"
proof -
  have "(2::real) \<le> exp 1" using exp_ge_add_one_self[of "1::real"] by simp
  then have "1 / exp (1::real) \<le> 1 / 2" by (intro divide_left_mono) simp_all
  then show ?thesis by (simp add: exp_minus field_simps)
qed

lemma realSigmoid_lower:
  assumes "- real n \<le> z"
  shows "1 / (1 + 3 ^ n) \<le> realSigmoid z"
proof -
  have "exp (- z) \<le> exp (real n)" using assms by simp
  also have "\<dots> \<le> 3 ^ n" by (rule exp_nat_le_3)
  finally have "1 + exp (- z) \<le> 1 + 3 ^ n" by simp
  then show ?thesis unfolding realSigmoid_def
    by (intro divide_left_mono) (simp_all add: add_pos_pos)
qed

lemma realSigmoid_upper:
  assumes "0 \<le> t" "z \<le> - t"
  shows "realSigmoid z \<le> 1 / (2 + t + t\<^sup>2 / 2)"
proof -
  have "1 + t + t\<^sup>2 / 2 \<le> exp t" using exp_lower_Taylor_quadratic[OF assms(1)] .
  also have "\<dots> \<le> exp (- z)" using assms(2) by simp
  finally have "2 + t + t\<^sup>2 / 2 \<le> 1 + exp (- z)" by simp
  moreover have "0 < 2 + t + t\<^sup>2 / 2" using assms(1) by (simp add: add_pos_nonneg)
  ultimately show ?thesis unfolding realSigmoid_def
    by (intro divide_left_mono) (simp_all add: add_pos_pos)
qed

text \<open>The likelihood of a level below the maximum, \<open>sigmoid z - sigmoid (z - 1)\<close>.\<close>

lemma bump_pos: "0 < realSigmoid z - realSigmoid (z - 1)"
proof -
  have "0 < 1 - exp (- 1 :: real)" using exp_minus_one_le_half by simp
  then show ?thesis unfolding realSigmoid_diff_factor
    using realSigmoid_pos by (intro mult_pos_pos) simp_all
qed

lemma ln_bump:
  "ln (realSigmoid z - realSigmoid (z - 1))
     = ln (1 - exp (- 1)) + ln (realSigmoid z) + ln (realSigmoid (1 - z))"
proof -
  have c: "0 < 1 - exp (- 1 :: real)" using exp_minus_one_le_half by simp
  show ?thesis unfolding realSigmoid_diff_factor
    using c realSigmoid_pos[of z] realSigmoid_pos[of "1 - z"]
    by (simp add: ln_mult)
qed

lemma ln_bump_tangent:
  "(v - u) * (1 - realSigmoid v - realSigmoid (v - 1))
     \<le> ln (realSigmoid v - realSigmoid (v - 1)) - ln (realSigmoid u - realSigmoid (u - 1))"
proof -
  have a: "(v - u) * (1 - realSigmoid v) \<le> ln (realSigmoid v) - ln (realSigmoid u)"
    by (rule ln_realSigmoid_tangent)
  have "((1 - v) - (1 - u)) * (1 - realSigmoid (1 - v))
          \<le> ln (realSigmoid (1 - v)) - ln (realSigmoid (1 - u))"
    by (rule ln_realSigmoid_tangent)
  moreover have "1 - realSigmoid (1 - v) = realSigmoid (v - 1)"
    using realSigmoid_neg[of "1 - v"] by simp
  ultimately have b: "- (v - u) * realSigmoid (v - 1) \<le> ln (realSigmoid (1 - v)) - ln (realSigmoid (1 - u))"
    by simp
  have "(v - u) * (1 - realSigmoid v - realSigmoid (v - 1))
      = (v - u) * (1 - realSigmoid v) + (- (v - u) * realSigmoid (v - 1))"
    by (simp add: algebra_simps)
  then show ?thesis unfolding ln_bump using a b by linarith
qed

lemma bump_lower:
  assumes "- real n \<le> z" "z \<le> 1"
  shows "1 / (4 * (1 + 3 ^ n)) \<le> realSigmoid z - realSigmoid (z - 1)"
proof -
  have c: "1 / 2 \<le> 1 - exp (- 1 :: real)" using exp_minus_one_le_half by simp
  have s1: "1 / (1 + 3 ^ n) \<le> realSigmoid z" using realSigmoid_lower[OF assms(1)] .
  have s2: "1 / 2 \<le> realSigmoid (1 - z)" using realSigmoid_half[of "1 - z"] assms(2) by simp
  have p: "(0::real) < 1 / (1 + 3 ^ n)" by (simp add: add_pos_pos)
  have c0: "0 \<le> 1 - exp (- 1 :: real)" using c by simp
  have m1: "(1 / 2) * (1 / (1 + 3 ^ n)) \<le> (1 - exp (- 1)) * realSigmoid z"
    by (rule mult_mono[OF c s1 c0]) (use p in simp)
  have nn: "0 \<le> (1 - exp (- 1)) * realSigmoid z"
    using c0 realSigmoid_pos[of z] by (intro mult_nonneg_nonneg) simp_all
  have m2: "(1 / 2) * (1 / (1 + 3 ^ n)) * (1 / 2) \<le> (1 - exp (- 1)) * realSigmoid z * realSigmoid (1 - z)"
    by (rule mult_mono[OF m1 s2 nn]) simp
  have "(1 / 2) * (1 / (1 + 3 ^ n)) * (1 / 2) = 1 / (4 * (1 + (3::real) ^ n))" by simp
  then show ?thesis unfolding realSigmoid_diff_factor using m2 by simp
qed

lemma bump_decreasing:
  assumes "1 / 2 \<le> u" "u \<le> v"
  shows "realSigmoid v - realSigmoid (v - 1) \<le> realSigmoid u - realSigmoid (u - 1)"
proof -
  have c: "0 \<le> 1 - exp (- 1 :: real)" using exp_minus_one_le_half by simp
  have "realSigmoid (0 - (v - 1)) * realSigmoid ((v - u) - (- u))
          \<le> realSigmoid ((v - u) - (v - 1)) * realSigmoid (0 - (- u))"
    using assms by (intro realSigmoid_product_order) simp_all
  then have "realSigmoid v * realSigmoid (1 - v) \<le> realSigmoid u * realSigmoid (1 - u)"
    by (simp add: mult.commute)
  then have "(1 - exp (- 1)) * (realSigmoid v * realSigmoid (1 - v))
           \<le> (1 - exp (- 1)) * (realSigmoid u * realSigmoid (1 - u))"
    using c by (intro mult_left_mono)
  then show ?thesis unfolding realSigmoid_diff_factor by (simp add: mult.assoc)
qed

lemma ln_max_mono:
  fixes a b :: real
  assumes "a \<le> b"
  shows "ln (max a epsilon) \<le> ln (max b epsilon)"
proof -
  have "0 < max a epsilon" by (simp add: less_max_iff_disj)
  moreover have "max a epsilon \<le> max b epsilon" using assms by auto
  ultimately show ?thesis by (simp add: ln_mono)
qed

lemma epsilon_small: "epsilon \<le> 1 / 1000"
  by (simp add: epsilon_def)

subsection \<open>The example scenarios\<close>

lemma high_scores_increasing:
  assumes "0 < x" "x < y" "y \<le> 8 / 5"
  shows "realLogPosterior [\<lparr> level = 4, predictedMaxScore = 4 \<rparr>, \<lparr> level = 3, predictedMaxScore = 4 \<rparr>] 5 0 4 x
       < realLogPosterior [\<lparr> level = 4, predictedMaxScore = 4 \<rparr>, \<lparr> level = 3, predictedMaxScore = 4 \<rparr>] 5 0 4 y"
proof -
  define d where "d = y - x"
  define a where "a = realSigmoid (y - 4)"
  define b where "b = realSigmoid (y - 3)"
  define u where "u = 1 / y"
  define w where "w = 1 / (4 - y)"
  have d: "0 < d" using assms by (simp add: d_def)
  have xy: "0 < y" "0 < 4 - x" "0 < 4 - y" "x \<le> 8 / 5" using assms by simp_all
  text \<open>Neither likelihood is floored on this range.\<close>
  have top: "epsilon \<le> realSigmoid (t - 4)" if "0 \<le> t" for t
  proof -
    have "1 / (1 + 3 ^ 4) \<le> realSigmoid (t - 4)" using that by (intro realSigmoid_lower) simp
    then show ?thesis using epsilon_small by simp
  qed
  have mid: "epsilon \<le> realSigmoid (t - 3) - realSigmoid (t - 3 - 1)" if "0 \<le> t" "t \<le> 4" for t
  proof -
    have "1 / (4 * (1 + 3 ^ 3)) \<le> realSigmoid (t - 3) - realSigmoid (t - 3 - 1)"
      using that by (intro bump_lower) simp_all
    then show ?thesis using epsilon_small by simp
  qed
  have ll: "realLogLikelihood t [\<lparr> level = 4, predictedMaxScore = 4 \<rparr>, \<lparr> level = 3, predictedMaxScore = 4 \<rparr>]
      = ln (realSigmoid (t - 4)) + ln (realSigmoid (t - 3) - realSigmoid (t - 3 - 1))"
    if "0 \<le> t" "t \<le> 4" for t
  proof -
    have "realLikelihood t \<lparr> level = 4, predictedMaxScore = 4 \<rparr> = realSigmoid (t - 4)"
      by (simp add: realLikelihood_def)
    moreover have "realLikelihood t \<lparr> level = 3, predictedMaxScore = 4 \<rparr>
        = realSigmoid (t - 3) - realSigmoid (t - 3 - 1)"
      by (simp add: realLikelihood_def)
    ultimately show ?thesis
      using top[OF that(1)] mid[OF that] by (simp add: realLogLikelihood_def max_def)
  qed
  have llx: "realLogLikelihood x [\<lparr> level = 4, predictedMaxScore = 4 \<rparr>, \<lparr> level = 3, predictedMaxScore = 4 \<rparr>]
      = ln (realSigmoid (x - 4)) + ln (realSigmoid (x - 3) - realSigmoid (x - 3 - 1))"
    using ll[of x] assms by simp
  have lly: "realLogLikelihood y [\<lparr> level = 4, predictedMaxScore = 4 \<rparr>, \<lparr> level = 3, predictedMaxScore = 4 \<rparr>]
      = ln (realSigmoid (y - 4)) + ln (realSigmoid (y - 3) - realSigmoid (y - 3 - 1))"
    using ll[of y] assms by simp
  text \<open>Tangent bounds for the four logarithms.\<close>
  have i1: "d * (1 - a) \<le> ln (realSigmoid (y - 4)) - ln (realSigmoid (x - 4))"
    using ln_realSigmoid_tangent[of "y - 4" "x - 4"] by (simp add: d_def a_def)
  have i2: "d * (1 - b - a)
      \<le> ln (realSigmoid (y - 3) - realSigmoid (y - 3 - 1)) - ln (realSigmoid (x - 3) - realSigmoid (x - 3 - 1))"
    using ln_bump_tangent[of "y - 3" "x - 3"] by (simp add: d_def a_def b_def)
  have i3: "d * u \<le> ln y - ln x"
    using ln_diff_ge[OF assms(1) xy(1)] by (simp add: d_def u_def)
  have i4: "- (d * w) \<le> ln (4 - y) - ln (4 - x)"
  proof -
    have "((4 - y) - (4 - x)) / (4 - y) \<le> ln (4 - y) - ln (4 - x)"
      using ln_diff_ge[OF xy(2) xy(3)] .
    moreover have "((4 - y) - (4 - x)) / (4 - y) = - (d * w)"
      by (simp add: d_def w_def minus_divide_left)
    ultimately show ?thesis by simp
  qed
  text \<open>The slope at \<open>y\<close> is positive.\<close>
  have bu: "5 / 8 \<le> u"
  proof -
    have "1 / (8 / 5) \<le> 1 / y" using assms xy by (intro divide_left_mono) simp_all
    then show ?thesis by (simp add: u_def)
  qed
  have bw: "w \<le> 5 / 12"
  proof -
    have "1 / (4 - y) \<le> 1 / (12 / 5)" using assms by (intro divide_left_mono) simp_all
    then show ?thesis by (simp add: w_def)
  qed
  have ba: "a \<le> 25 / 182"
  proof -
    have "realSigmoid (y - 4) \<le> 1 / (2 + 12 / 5 + (12 / 5)\<^sup>2 / 2)"
      using assms by (intro realSigmoid_upper) simp_all
    then show ?thesis by (simp add: a_def power2_eq_square)
  qed
  have bb: "b \<le> 50 / 219"
  proof -
    have "realSigmoid (y - 3) \<le> 1 / (2 + 7 / 5 + (7 / 5)\<^sup>2 / 2)"
      using assms by (intro realSigmoid_upper) simp_all
    then show ?thesis by (simp add: b_def power2_eq_square)
  qed
  have slope: "2 / 5 \<le> (1 - a) + (1 - b - a) + u - 4 * w"
    using bu bw ba bb by simp
  have "0 < d * (2 / 5)" using d by simp
  also have "d * (2 / 5) \<le> d * ((1 - a) + (1 - b - a) + u - 4 * w)"
    using slope d by (intro mult_left_mono) simp_all
  also have "\<dots> = d * (1 - a) + d * (1 - b - a) + d * u - 4 * (d * w)"
    by (simp add: algebra_simps)
  also have "\<dots> \<le> (ln (realSigmoid (y - 4)) - ln (realSigmoid (x - 4)))
      + (ln (realSigmoid (y - 3) - realSigmoid (y - 3 - 1)) - ln (realSigmoid (x - 3) - realSigmoid (x - 3 - 1)))
      + (ln y - ln x) + 4 * (ln (4 - y) - ln (4 - x))"
  proof -
    define p1 where "p1 = d * (1 - a)"
    define p2 where "p2 = d * (1 - b - a)"
    define p3 where "p3 = d * u"
    define p4 where "p4 = d * w"
    define r4 where "r4 = ln (4 - y) - ln (4 - x)"
    show ?thesis
      using i1 i2 i3 i4
      unfolding p1_def[symmetric] p2_def[symmetric] p3_def[symmetric] p4_def[symmetric] r4_def[symmetric]
      by linarith
  qed
  finally show ?thesis
    unfolding realLogPosterior_def realLogPrior_def llx lly by simp
qed

lemma low_scores_decreasing:
  assumes "3 / 2 \<le> x" "x < y" "y < 4"
  shows "realLogPosterior [\<lparr> level = 0, predictedMaxScore = 4 \<rparr>, \<lparr> level = 1, predictedMaxScore = 4 \<rparr>] 5 0 4 y
       < realLogPosterior [\<lparr> level = 0, predictedMaxScore = 4 \<rparr>, \<lparr> level = 1, predictedMaxScore = 4 \<rparr>] 5 0 4 x"
proof -
  define d where "d = y - x"
  define u where "u = 1 / x"
  define w where "w = 1 / (4 - x)"
  have d: "0 < d" using assms by (simp add: d_def)
  have xy: "0 < x" "0 < y" "0 < 4 - x" "0 < 4 - y" using assms by simp_all
  have l0: "realLikelihood t \<lparr> level = 0, predictedMaxScore = 4 \<rparr> = realSigmoid t - realSigmoid (t - 1)" for t
    by (simp add: realLikelihood_def)
  have l1: "realLikelihood t \<lparr> level = 1, predictedMaxScore = 4 \<rparr>
      = realSigmoid (t - 1) - realSigmoid (t - 1 - 1)" for t
    by (simp add: realLikelihood_def)
  have m0: "realLikelihood y \<lparr> level = 0, predictedMaxScore = 4 \<rparr> \<le> realLikelihood x \<lparr> level = 0, predictedMaxScore = 4 \<rparr>"
    unfolding l0 using assms by (intro bump_decreasing) simp_all
  have m1: "realLikelihood y \<lparr> level = 1, predictedMaxScore = 4 \<rparr> \<le> realLikelihood x \<lparr> level = 1, predictedMaxScore = 4 \<rparr>"
    unfolding l1 using assms by (intro bump_decreasing) simp_all
  have ll: "realLogLikelihood y [\<lparr> level = 0, predictedMaxScore = 4 \<rparr>, \<lparr> level = 1, predictedMaxScore = 4 \<rparr>]
         \<le> realLogLikelihood x [\<lparr> level = 0, predictedMaxScore = 4 \<rparr>, \<lparr> level = 1, predictedMaxScore = 4 \<rparr>]"
    using ln_max_mono[OF m0] ln_max_mono[OF m1] by (simp add: realLogLikelihood_def)
  have i3: "ln y - ln x \<le> d * u"
    using ln_diff_le[OF xy(1) xy(2)] by (simp add: d_def u_def)
  have i4: "ln (4 - y) - ln (4 - x) \<le> - (d * w)"
  proof -
    have "((4 - x) - (4 - y)) / (4 - x) \<le> ln (4 - x) - ln (4 - y)"
      using ln_diff_ge[OF xy(4) xy(3)] .
    moreover have "((4 - x) - (4 - y)) / (4 - x) = d * w"
      by (simp add: d_def w_def)
    ultimately show ?thesis by simp
  qed
  have bu: "u \<le> 2 / 3"
  proof -
    have "1 / x \<le> 1 / (3 / 2)" using assms by (intro divide_left_mono) simp_all
    then show ?thesis by (simp add: u_def)
  qed
  have bw: "2 / 5 \<le> w"
  proof -
    have "1 / (5 / 2) \<le> 1 / (4 - x)" using assms xy by (intro divide_left_mono) simp_all
    then show ?thesis by (simp add: w_def)
  qed
  define p where "p = d * u"
  define q where "q = d * w"
  define r1 where "r1 = ln y - ln x"
  define r2 where "r2 = ln (4 - y) - ln (4 - x)"
  have "r1 + 4 * r2 \<le> p - 4 * q"
    using i3 i4 unfolding p_def[symmetric] q_def[symmetric] r1_def[symmetric] r2_def[symmetric]
    by linarith
  also have "\<dots> = d * (u - 4 * w)" by (simp add: p_def q_def algebra_simps)
  also have "\<dots> \<le> d * (- (14 / 15))"
    using bu bw d by (intro mult_left_mono) simp_all
  also have "\<dots> < 0" using d by simp
  finally have lp: "(ln y - ln x) + 4 * (ln (4 - y) - ln (4 - x)) < 0"
    unfolding r1_def r2_def .
  show ?thesis
    unfolding realLogPosterior_def realLogPrior_def using ll lp by simp
qed

lemma gridPoint_default: "gridPoint 0 4 500 k = real k / 125"
  by (simp add: gridPoint_def)

text \<open>
  Claim C9. With \<open>ALPHA = 2\<close>, \<open>BETA_PARAM = 5\<close>, \<open>xMin = 0\<close>, \<open>xMax = 4\<close> and 500 grid
  intervals, the evaluations \<open>{4 of 4, 3 of 4}\<close> give a \<open>bestAbility\<close> above 1.5 (the
  log-posterior increases strictly up to the grid point 1.6), and the evaluations
  \<open>{0 of 4, 1 of 4}\<close> give a \<open>bestAbility\<close> below 2 (the log-posterior decreases strictly from
  the grid point 1.504 on).
\<close>

theorem example_scenarios:
  "(\<exists>x. bestAbility (estimateAbilityByGridSearchMAP
            [\<lparr> level = 4, predictedMaxScore = 4 \<rparr>, \<lparr> level = 3, predictedMaxScore = 4 \<rparr>]
            (Fin 2) (Fin 5) (Fin 0) (Fin 4) 500) = Fin x \<and> 3 / 2 < x)
   \<and> (\<exists>x. bestAbility (estimateAbilityByGridSearchMAP
            [\<lparr> level = 0, predictedMaxScore = 4 \<rparr>, \<lparr> level = 1, predictedMaxScore = 4 \<rparr>]
            (Fin 2) (Fin 5) (Fin 0) (Fin 4) 500) = Fin x \<and> x < 2)"
proof
  let ?es = "[\<lparr> level = 4, predictedMaxScore = 4 \<rparr>, \<lparr> level = 3, predictedMaxScore = 4 \<rparr>]"
  have h: "?es \<noteq> []" "(0::real) < 4" "(2::nat) \<le> 500" by simp_all
  from interior_bestAbility[OF h, of "Fin 2" 5]
  obtain k where k: "0 < k" "k < 500"
      "bestAbility (estimateAbilityByGridSearchMAP ?es (Fin 2) (Fin 5) (Fin 0) (Fin 4) 500)
         = Fin (gridPoint 0 4 500 k)"
      "\<forall>j. 0 < j \<and> j < 500 \<longrightarrow>
         realLogPosterior ?es 5 0 4 (gridPoint 0 4 500 j) \<le> realLogPosterior ?es 5 0 4 (gridPoint 0 4 500 k)"
    by blast
  have "3 / 2 < gridPoint 0 4 500 k"
  proof (rule ccontr)
    assume "\<not> 3 / 2 < gridPoint 0 4 500 k"
    then have le: "real k / 125 \<le> 3 / 2" by (simp add: gridPoint_default)
    have "realLogPosterior ?es 5 0 4 (real k / 125) < realLogPosterior ?es 5 0 4 (8 / 5)"
      using k(1) le by (intro high_scores_increasing) simp_all
    moreover have "realLogPosterior ?es 5 0 4 (gridPoint 0 4 500 200) \<le> realLogPosterior ?es 5 0 4 (gridPoint 0 4 500 k)"
      using k(4) by simp
    ultimately show False by (simp add: gridPoint_default)
  qed
  then show "\<exists>x. bestAbility (estimateAbilityByGridSearchMAP ?es (Fin 2) (Fin 5) (Fin 0) (Fin 4) 500) = Fin x
                 \<and> 3 / 2 < x"
    using k(3) by blast
next
  let ?es = "[\<lparr> level = 0, predictedMaxScore = 4 \<rparr>, \<lparr> level = 1, predictedMaxScore = 4 \<rparr>]"
  have h: "?es \<noteq> []" "(0::real) < 4" "(2::nat) \<le> 500" by simp_all
  from interior_bestAbility[OF h, of "Fin 2" 5]
  obtain k where k: "0 < k" "k < 500"
      "bestAbility (estimateAbilityByGridSearchMAP ?es (Fin 2) (Fin 5) (Fin 0) (Fin 4) 500)
         = Fin (gridPoint 0 4 500 k)"
      "\<forall>j. 0 < j \<and> j < 500 \<longrightarrow>
         realLogPosterior ?es 5 0 4 (gridPoint 0 4 500 j) \<le> realLogPosterior ?es 5 0 4 (gridPoint 0 4 500 k)"
    by blast
  have "gridPoint 0 4 500 k < 2"
  proof (rule ccontr)
    assume "\<not> gridPoint 0 4 500 k < 2"
    then have ge: "2 \<le> real k / 125" by (simp add: gridPoint_default)
    have "real k / 125 < 4" using k(2) by simp
    then have "realLogPosterior ?es 5 0 4 (real k / 125) < realLogPosterior ?es 5 0 4 (188 / 125)"
      using ge by (intro low_scores_decreasing) simp_all
    moreover have "realLogPosterior ?es 5 0 4 (gridPoint 0 4 500 188) \<le> realLogPosterior ?es 5 0 4 (gridPoint 0 4 500 k)"
      using k(4) by simp
    ultimately show False by (simp add: gridPoint_default)
  qed
  then show "\<exists>x. bestAbility (estimateAbilityByGridSearchMAP ?es (Fin 2) (Fin 5) (Fin 0) (Fin 4) 500) = Fin x
                 \<and> x < 2"
    using k(3) by blast
qed

subsection \<open>The first maximum over the grid\<close>

lemma maxItem_single: "maxItem [x] = x"
  by (simp add: maxItem_def)

lemma maxItem_snoc:
  "xs \<noteq> [] \<Longrightarrow> maxItem (xs @ [x]) = (if n_lt (fst (maxItem xs)) (fst x) then x else maxItem xs)"
  by (cases xs) (simp_all add: maxItem_def)

text \<open>On a range of indices with finite values, \<open>maxItem\<close> picks the first index of
  maximal value.\<close>

lemma maxItem_range:
  assumes "lo < hi"
  shows "lo \<le> snd (maxItem (map (\<lambda>i. (Fin (f i), i)) [lo ..< hi]))
       \<and> snd (maxItem (map (\<lambda>i. (Fin (f i), i)) [lo ..< hi])) < hi
       \<and> fst (maxItem (map (\<lambda>i. (Fin (f i), i)) [lo ..< hi]))
           = Fin (f (snd (maxItem (map (\<lambda>i. (Fin (f i), i)) [lo ..< hi]))))
       \<and> (\<forall>j. lo \<le> j \<and> j < hi \<longrightarrow> f j \<le> f (snd (maxItem (map (\<lambda>i. (Fin (f i), i)) [lo ..< hi]))))
       \<and> (\<forall>j. lo \<le> j \<and> j < snd (maxItem (map (\<lambda>i. (Fin (f i), i)) [lo ..< hi]))
              \<longrightarrow> f j < f (snd (maxItem (map (\<lambda>i. (Fin (f i), i)) [lo ..< hi]))))"
  using assms
proof (induction hi)
  case 0
  then show ?case by simp
next
  case (Suc hi)
  show ?case
  proof (cases "lo = hi")
    case True
    then show ?thesis by (auto simp add: maxItem_single le_less_Suc_eq)
  next
    case False
    then have lt: "lo < hi" using Suc.prems by simp
    let ?xs = "map (\<lambda>i. (Fin (f i), i)) [lo ..< hi]"
    let ?m = "maxItem ?xs"
    have ne: "?xs \<noteq> []" using lt by simp
    have up: "map (\<lambda>i. (Fin (f i), i)) [lo ..< Suc hi] = ?xs @ [(Fin (f hi), hi)]"
      using lt by simp
    note IH = Suc.IH[OF lt]
    have m: "fst ?m = Fin (f (snd ?m))" using IH by blast
    show ?thesis
    proof (cases "f (snd ?m) < f hi")
      case True
      then have new: "maxItem (map (\<lambda>i. (Fin (f i), i)) [lo ..< Suc hi]) = (Fin (f hi), hi)"
        unfolding up maxItem_snoc[OF ne] using m by simp
      have "f j < f hi" if "lo \<le> j \<and> j < hi" for j
        using IH that True by (meson le_less_trans)
      then show ?thesis unfolding new using lt by (auto simp: less_Suc_eq intro: less_imp_le)
    next
      case False
      then have old: "maxItem (map (\<lambda>i. (Fin (f i), i)) [lo ..< Suc hi]) = ?m"
        unfolding up maxItem_snoc[OF ne] using m by simp
      show ?thesis unfolding old using IH False by (auto simp: less_Suc_eq)
    qed
  qed
qed

text \<open>Raising the values by an amount that does not decrease along the range cannot move
  the first maximum to the left.\<close>

lemma argmax_monotone:
  assumes "lo < hi"
    and "\<forall>i j. lo \<le> i \<and> i \<le> j \<and> j < hi \<longrightarrow> f2 i - f1 i \<le> f2 j - (f1 j :: real)"
  shows "snd (maxItem (map (\<lambda>i. (Fin (f1 i), i)) [lo ..< hi]))
       \<le> snd (maxItem (map (\<lambda>i. (Fin (f2 i), i)) [lo ..< hi]))"
proof (rule ccontr)
  let ?k1 = "snd (maxItem (map (\<lambda>i. (Fin (f1 i), i)) [lo ..< hi]))"
  let ?k2 = "snd (maxItem (map (\<lambda>i. (Fin (f2 i), i)) [lo ..< hi]))"
  assume "\<not> ?k1 \<le> ?k2"
  then have lt: "?k2 < ?k1" by simp
  note p1 = maxItem_range[OF assms(1), of f1]
  note p2 = maxItem_range[OF assms(1), of f2]
  have b: "lo \<le> ?k2" "?k1 < hi" using p1 p2 by blast+
  have "f1 ?k2 < f1 ?k1" using p1 b(1) lt by blast
  moreover have "f2 ?k2 - f1 ?k2 \<le> f2 ?k1 - f1 ?k1" using assms(2) b lt by simp
  moreover have "f2 ?k1 \<le> f2 ?k2" using p2 b lt by (meson le_trans less_imp_le)
  ultimately show False by linarith
qed

lemma filter_interior: "filter (\<lambda>i. 0 < i \<and> i < g) [0 ..< Suc g] = [1 ..< g]"
proof -
  have "sorted [0 ..< Suc g]" by (rule sorted_upt)
  then have "sorted (filter (\<lambda>i. 0 < i \<and> i < g) [0 ..< Suc g])" by (rule sorted_wrt_filter)
  moreover have "distinct (filter (\<lambda>i. 0 < i \<and> i < g) [0 ..< Suc g])" by simp
  moreover have "set (filter (\<lambda>i. 0 < i \<and> i < g) [0 ..< Suc g]) = set [1 ..< g]" by auto
  ultimately show ?thesis
    by (intro sorted_distinct_set_unique) simp_all
qed

lemma validIndices_grid:
  assumes ne: "es \<noteq> []" and lt: "xmin < xmax" and g: "2 \<le> g"
  shows "validIndices (logPosteriors (estimateAbilityByGridSearchMAP es ALPHA (Fin b) (Fin xmin) (Fin xmax) g))
       = map (\<lambda>i. (Fin (realLogPosterior es b xmin xmax (gridPoint xmin xmax g i)), i)) [1 ..< g]"
proof -
  let ?r = "estimateAbilityByGridSearchMAP es ALPHA (Fin b) (Fin xmin) (Fin xmax) g"
  let ?F = "\<lambda>i. realLogPosterior es b xmin xmax (gridPoint xmin xmax g i)"
  let ?h = "\<lambda>i. if 0 < i \<and> i < g then Fin (?F i) else NInf"
  have g0: "0 < g" using g by simp
  have len: "length (logPosteriors ?r) = Suc g"
    using bestAbility_cases(1,2)[OF ne, of ALPHA "Fin b" "Fin xmin" "Fin xmax" g] by simp
  have lps: "logPosteriors ?r = map ?h [0 ..< Suc g]"
  proof (rule nth_equalityI)
    show "length (logPosteriors ?r) = length (map ?h [0 ..< Suc g])" using len by simp
  next
    fix i assume "i < length (logPosteriors ?r)"
    then have i: "i \<le> g" "i < Suc g" using len by simp_all
    have "map ?h [0 ..< Suc g] ! i = ?h i" using i(2) by (simp del: upt_Suc)
    then show "logPosteriors ?r ! i = map ?h [0 ..< Suc g] ! i"
      using logPosteriors_nth[OF ne g0 i(1) lt, of ALPHA b] by simp
  qed
  have z: "zip (map ?h [0 ..< Suc g]) [0 ..< Suc g] = map (\<lambda>i. (?h i, i)) [0 ..< Suc g]"
    by (simp only: zip_map1 zip_same_conv_map map_map o_def split_conv)
  have "validIndices (logPosteriors ?r)
      = filter (\<lambda>item. isFinite (fst item)) (map (\<lambda>i. (?h i, i)) [0 ..< Suc g])"
    unfolding validIndices_def lps using z by (simp del: upt_Suc)
  also have "\<dots> = map (\<lambda>i. (?h i, i)) (filter (\<lambda>i. 0 < i \<and> i < g) [0 ..< Suc g])"
    unfolding filter_map by (intro arg_cong[where f = "map (\<lambda>i. (?h i, i))"] filter_cong) (simp_all add: o_def)
  also have "\<dots> = map (\<lambda>i. (?h i, i)) [1 ..< g]" unfolding filter_interior ..
  also have "\<dots> = map (\<lambda>i. (Fin (?F i), i)) [1 ..< g]" by (intro map_cong) simp_all
  finally show ?thesis .
qed

lemma bestAbility_grid:
  assumes ne: "es \<noteq> []" and lt: "xmin < xmax" and g: "2 \<le> g"
  shows "bestAbility (estimateAbilityByGridSearchMAP es ALPHA (Fin b) (Fin xmin) (Fin xmax) g)
       = Fin (gridPoint xmin xmax g
           (snd (maxItem (map (\<lambda>i. (Fin (realLogPosterior es b xmin xmax (gridPoint xmin xmax g i)), i)) [1 ..< g]))))"
proof -
  let ?r = "estimateAbilityByGridSearchMAP es ALPHA (Fin b) (Fin xmin) (Fin xmax) g"
  let ?v = "map (\<lambda>i. (Fin (realLogPosterior es b xmin xmax (gridPoint xmin xmax g i)), i)) [1 ..< g]"
  have v: "validIndices (logPosteriors ?r) = ?v" using validIndices_grid[OF assms] .
  have ne_v: "?v \<noteq> []" using g by simp
  have r: "1 < g" using g by simp
  have k: "snd (maxItem ?v) < g" using maxItem_range[OF r, of "\<lambda>i. realLogPosterior es b xmin xmax (gridPoint xmin xmax g i)"] by blast
  have "bestAbility ?r = abilities ?r ! snd (maxItem ?v)"
    using bestAbility_cases(4)[OF ne, of ALPHA "Fin b" "Fin xmin" "Fin xmax" g] v ne_v by simp
  also have "\<dots> = Fin (gridPoint xmin xmax g (snd (maxItem ?v)))"
    using bestAbility_cases(1)[OF ne, of ALPHA "Fin b" "Fin xmin" "Fin xmax" g]
      gridAbilities_nth[of g "snd (maxItem ?v)" xmin xmax] k g by simp
  finally show ?thesis .
qed

lemma degenerate_bestAbility:
  assumes ne: "es \<noteq> []" and deg: "\<not> (xmin < xmax \<and> 2 \<le> g)"
  shows "bestAbility (estimateAbilityByGridSearchMAP es ALPHA (Fin b) (Fin xmin) (Fin xmax) g) = Fin xmin"
proof -
  let ?r = "estimateAbilityByGridSearchMAP es ALPHA (Fin b) (Fin xmin) (Fin xmax) g"
  have len: "length (logPosteriors ?r) = Suc g"
    using bestAbility_cases(1,2)[OF ne, of ALPHA "Fin b" "Fin xmin" "Fin xmax" g] by simp
  have nf: "\<not> isFinite (logPosteriors ?r ! j)" if j: "j \<le> g" for j
  proof
    assume fin: "isFinite (logPosteriors ?r ! j)"
    have g0: "0 < g" using finite_posterior_grid_pos[OF ne j fin] .
    have "logPosteriors ?r ! j = logPosterior (Fin (gridPoint xmin xmax g j)) es ALPHA (Fin b) (Fin xmin) (Fin xmax)"
      using bestAbility_cases(1,2)[OF ne, of ALPHA "Fin b" "Fin xmin" "Fin xmax" g] j
        gridAbilities_nth[OF g0 j, of xmin xmax] by simp
    then have inside: "xmin < gridPoint xmin xmax g j" "gridPoint xmin xmax g j < xmax"
      using fin by (auto simp: logPosterior_Fin split: if_splits)
    then have lt: "xmin < xmax" by simp
    then have "g = 1" using deg g0 by simp
    then have "j = 0 \<or> j = 1" using j by auto
    then show False using inside \<open>g = 1\<close> by (auto simp: gridPoint_def)
  qed
  have "validIndices (logPosteriors ?r) = []"
  proof (rule ccontr)
    assume "validIndices (logPosteriors ?r) \<noteq> []"
    then obtain x where x: "x \<in> set (validIndices (logPosteriors ?r))"
      by (cases "validIndices (logPosteriors ?r)") auto
    from validIndices_memD[OF x] len nf[of "snd x"] show False by simp
  qed
  then show ?thesis using bestAbility_cases(3)[OF ne] by simp
qed

subsection \<open>Raising one level\<close>

lemma realLikelihood_pos: "0 < realLikelihood x e"
proof (cases "level e = predictedMaxScore e")
  case True
  then show ?thesis using realSigmoid_pos[of "x - level e"] by (simp add: realLikelihood_def)
next
  case False
  then show ?thesis using bump_pos[of "x - level e"] by (simp add: realLikelihood_def diff_diff_eq)
qed

lemma realLikelihood_below_max:
  assumes "level e \<noteq> predictedMaxScore e"
  shows "realLikelihood x e
       = (1 - exp (- 1)) * realSigmoid (x - level e) * realSigmoid (1 - (x - level e))"
  using assms realSigmoid_diff_factor[of "x - level e"]
  by (simp add: realLikelihood_def diff_diff_eq)

text \<open>Raising the level of an item multiplies its likelihood by a factor that does not
  decrease with the ability.\<close>

lemma likelihood_ratio_monotone:
  assumes lv: "level e1 < level e2"
    and ne1: "level e1 \<noteq> predictedMaxScore e1"
    and xy: "x \<le> y"
  shows "realLikelihood x e2 * realLikelihood y e1 \<le> realLikelihood y e2 * realLikelihood x e1"
proof -
  define c where "c = 1 - exp (- 1 :: real)"
  have c: "0 \<le> c" using exp_minus_one_le_half by (simp add: c_def)
  have l1: "realLikelihood t e1 = c * realSigmoid (t - level e1) * realSigmoid (1 - (t - level e1))" for t
    using realLikelihood_below_max[OF ne1] by (simp add: c_def)
  have sm1: "realSigmoid (x - level e2) * realSigmoid (y - level e1)
           \<le> realSigmoid (y - level e2) * realSigmoid (x - level e1)"
    using xy lv by (intro realSigmoid_product_order) simp_all
  have mono: "realSigmoid (1 - (y - level e1)) \<le> realSigmoid (1 - (x - level e1))"
    using xy by (intro realSigmoid_mono) simp
  show ?thesis
  proof (cases "level e2 = predictedMaxScore e2")
    case True
    have l2: "realLikelihood t e2 = realSigmoid (t - level e2)" for t
      using True by (simp add: realLikelihood_def)
    have "(realSigmoid (x - level e2) * realSigmoid (y - level e1)) * realSigmoid (1 - (y - level e1))
        \<le> (realSigmoid (y - level e2) * realSigmoid (x - level e1)) * realSigmoid (1 - (x - level e1))"
    proof (rule mult_mono[OF sm1 mono])
      show "0 \<le> realSigmoid (y - level e2) * realSigmoid (x - level e1)"
        using realSigmoid_pos by (intro mult_nonneg_nonneg) (simp_all add: less_imp_le)
      show "0 \<le> realSigmoid (1 - (y - level e1))" using realSigmoid_pos by (simp add: less_imp_le)
    qed
    then have "c * ((realSigmoid (x - level e2) * realSigmoid (y - level e1)) * realSigmoid (1 - (y - level e1)))
        \<le> c * ((realSigmoid (y - level e2) * realSigmoid (x - level e1)) * realSigmoid (1 - (x - level e1)))"
      using c by (intro mult_left_mono)
    then show ?thesis unfolding l1 l2 by (simp add: mult_ac)
  next
    case False
    have l2: "realLikelihood t e2 = c * realSigmoid (t - level e2) * realSigmoid (1 - (t - level e2))" for t
      using realLikelihood_below_max[OF False] by (simp add: c_def)
    have sm2: "realSigmoid ((1 - y) - (- level e1)) * realSigmoid ((1 - x) - (- level e2))
            \<le> realSigmoid ((1 - x) - (- level e1)) * realSigmoid ((1 - y) - (- level e2))"
      using xy lv by (intro realSigmoid_product_order) simp_all
    have arg: "(1 - y) - (- level e1) = 1 - (y - level e1)" "(1 - x) - (- level e2) = 1 - (x - level e2)"
              "(1 - x) - (- level e1) = 1 - (x - level e1)" "(1 - y) - (- level e2) = 1 - (y - level e2)"
      by simp_all
    have sm2': "realSigmoid (1 - (y - level e1)) * realSigmoid (1 - (x - level e2))
            \<le> realSigmoid (1 - (x - level e1)) * realSigmoid (1 - (y - level e2))"
      using sm2 unfolding arg .
    have "(realSigmoid (x - level e2) * realSigmoid (y - level e1))
          * (realSigmoid (1 - (y - level e1)) * realSigmoid (1 - (x - level e2)))
        \<le> (realSigmoid (y - level e2) * realSigmoid (x - level e1))
          * (realSigmoid (1 - (x - level e1)) * realSigmoid (1 - (y - level e2)))"
    proof (rule mult_mono[OF sm1 sm2'])
      show "0 \<le> realSigmoid (y - level e2) * realSigmoid (x - level e1)"
        using realSigmoid_pos by (intro mult_nonneg_nonneg) (simp_all add: less_imp_le)
      show "0 \<le> realSigmoid (1 - (y - level e1)) * realSigmoid (1 - (x - level e2))"
        using realSigmoid_pos by (intro mult_nonneg_nonneg) (simp_all add: less_imp_le)
    qed
    then have "(c * c) * ((realSigmoid (x - level e2) * realSigmoid (y - level e1))
          * (realSigmoid (1 - (y - level e1)) * realSigmoid (1 - (x - level e2))))
        \<le> (c * c) * ((realSigmoid (y - level e2) * realSigmoid (x - level e1))
          * (realSigmoid (1 - (x - level e1)) * realSigmoid (1 - (y - level e2))))"
      using c by (intro mult_left_mono) simp_all
    then show ?thesis unfolding l1 l2 by (simp add: mult_ac)
  qed
qed

lemma ln_likelihood_difference_monotone:
  assumes lv: "level e1 < level e2"
    and ne1: "level e1 \<noteq> predictedMaxScore e1"
    and xy: "x \<le> y"
  shows "ln (realLikelihood x e2) - ln (realLikelihood x e1)
       \<le> ln (realLikelihood y e2) - ln (realLikelihood y e1)"
proof -
  note p = realLikelihood_pos
  have "ln (realLikelihood x e2 * realLikelihood y e1) \<le> ln (realLikelihood y e2 * realLikelihood x e1)"
    using likelihood_ratio_monotone[OF assms] p by (intro ln_mono mult_pos_pos) 
  then show ?thesis using p[of x e1] p[of x e2] p[of y e1] p[of y e2] by (simp add: ln_mult)
qed

lemma realLogLikelihood_insert:
  "realLogLikelihood x (xs @ e # ys)
     = realLogLikelihood x xs + ln (max (realLikelihood x e) epsilon) + realLogLikelihood x ys"
  by (simp add: realLogLikelihood_def)

text \<open>The selection of \<open>bestAbility\<close> and a change of the log-posteriors.\<close>

lemma validIndices_sorted: "sorted_wrt (\<lambda>a b. snd a < snd b) (validIndices lps)"
proof -
  have "map snd (zip lps [0 ..< length lps]) = [0 ..< length lps]" by simp
  moreover have "sorted_wrt (<) [0 ..< length lps]" by (rule sorted_wrt_upt)
  ultimately have "sorted_wrt (\<lambda>a b. snd a < snd b) (zip lps [0 ..< length lps])"
    by (metis sorted_wrt_map)
  then show ?thesis unfolding validIndices_def by (rule sorted_wrt_filter)
qed

lemma n_le_lt_trans:
  assumes "isFinite x" "isFinite y" "n_le x y" "n_lt y z"
  shows "n_lt x z"
  using assms by (cases x; cases y; cases z) (auto simp: n_le_def)

lemma n_lt_not_le:
  assumes "n_lt x y"
  shows "\<not> n_le y x"
  using assms by (cases x; cases y) (auto simp: n_le_def)

text \<open>\<open>maxItem\<close> keeps the first of the maximal items: every item before it is strictly smaller.\<close>

lemma maxItem_first:
  assumes "sorted_wrt (\<lambda>a b. snd a < snd b) xs" "\<forall>x\<in>set xs. isFinite (fst x)" "xs \<noteq> []"
  shows "\<forall>x\<in>set xs. snd x < snd (maxItem xs) \<longrightarrow> n_lt (fst x) (fst (maxItem xs))"
  using assms
proof (induction xs rule: rev_induct)
  case Nil
  then show ?case by simp
next
  case (snoc y ys)
  show ?case
  proof (cases "ys = []")
    case True
    then show ?thesis by (simp add: maxItem_def)
  next
    case False
    have srt: "sorted_wrt (\<lambda>a b. snd a < snd b) ys" and before: "\<forall>x\<in>set ys. snd x < snd y"
      using snoc.prems(1) by (simp_all add: sorted_wrt_append)
    have fin: "\<forall>x\<in>set ys. isFinite (fst x)" "isFinite (fst y)" using snoc.prems(2) by simp_all
    note IH = snoc.IH[OF srt fin(1) False]
    let ?m = "maxItem ys"
    have m: "?m \<in> set ys" using maxItem_mem[OF False] .
    have mfin: "isFinite (fst ?m)" using fin(1) m by blast
    have step: "maxItem (ys @ [y]) = (if n_lt (fst ?m) (fst y) then y else ?m)"
      using False by (cases ys) (simp_all add: maxItem_def)
    show ?thesis
    proof (cases "n_lt (fst ?m) (fst y)")
      case True
      have "n_lt (fst x) (fst y)" if "x \<in> set ys" for x
        using n_le_lt_trans[OF _ mfin maxItem_ge[OF fin(1) that] True] fin(1) that by blast
      then show ?thesis unfolding step using True by auto
    next
      case new: False
      have "snd ?m < snd y" using before m by blast
      then show ?thesis unfolding step using new IH by auto
    qed
  qed
qed

lemma first_maximum_monotone:
  assumes len: "length lpA = length lpB"
    and same: "\<forall>j<length lpA. isFinite (lpA ! j) \<longleftrightarrow> isFinite (lpB ! j)"
    and ne: "validIndices lpA \<noteq> []"
    and gain: "\<forall>i j. i < j \<and> j < length lpA \<and> isFinite (lpA ! i) \<and> isFinite (lpA ! j)
                  \<and> n_lt (lpA ! i) (lpA ! j) \<longrightarrow> n_lt (lpB ! i) (lpB ! j)"
  shows "validIndices lpB \<noteq> []"
    and "snd (maxItem (validIndices lpA)) \<le> snd (maxItem (validIndices lpB))"
proof -
  show neB: "validIndices lpB \<noteq> []"
    using ne same len by (auto simp: validIndices_empty_iff)
  let ?a = "snd (maxItem (validIndices lpA))"
  let ?b = "snd (maxItem (validIndices lpB))"
  note A = maxItem_selected[OF ne]
  note B = maxItem_selected[OF neB]
  show "?a \<le> ?b"
  proof (rule ccontr)
    assume "\<not> ?a \<le> ?b"
    then have lt: "?b < ?a" by simp
    have bA: "isFinite (lpA ! ?b)" using B(1,2) same len by simp
    have aB: "isFinite (lpB ! ?a)" using A(1,2) same by simp
    have mem: "(lpA ! ?b, ?b) \<in> set (validIndices lpA)"
      using bA B(1) len by (simp add: validIndices_set)
    have fin: "\<forall>x\<in>set (validIndices lpA). isFinite (fst x)" using validIndices_set[of _ lpA] by blast
    have fstA: "fst (maxItem (validIndices lpA)) = lpA ! ?a"
      using validIndices_memD(3)[OF maxItem_mem[OF ne]] .
    have "n_lt (lpA ! ?b) (lpA ! ?a)"
      using maxItem_first[OF validIndices_sorted fin ne, rule_format, OF mem] lt fstA by simp
    then have "n_lt (lpB ! ?b) (lpB ! ?a)"
      using gain lt A(1,2) bA by blast
    moreover have "n_le (lpB ! ?a) (lpB ! ?b)" using B(3) A(1) len aB by simp
    ultimately show False using n_lt_not_le by blast
  qed
qed


text \<open>
  In exact arithmetic: two evaluation lists that differ in one item only, whose level is
  raised from a level other than its \<open>predictedMaxScore\<close>; if the likelihood of that item,
  before and after, is not below the floor \<open>1e-10\<close> at any interior grid point, the
  \<open>bestAbility\<close> for the higher level is not smaller (any \<open>xMin\<close>, \<open>xMax\<close>, \<open>gridPoints\<close>,
  \<open>ALPHA\<close> and finite \<open>BETA_PARAM\<close>).
\<close>

lemma level_increase_monotone_exact:
  assumes "level e1 < level e2" and "level e1 \<noteq> predictedMaxScore e1"
    and "\<forall>i. 0 < i \<and> i < g \<longrightarrow>
           epsilon \<le> realLikelihood (gridPoint xmin xmax g i) e1
         \<and> epsilon \<le> realLikelihood (gridPoint xmin xmax g i) e2"
  shows "n_le (bestAbility (estimateAbilityByGridSearchMAP (xs @ e1 # ys) ALPHA (Fin b) (Fin xmin) (Fin xmax) g))
              (bestAbility (estimateAbilityByGridSearchMAP (xs @ e2 # ys) ALPHA (Fin b) (Fin xmin) (Fin xmax) g))"
proof (cases "xmin < xmax \<and> 2 \<le> g")
  case False
  have ne: "xs @ e1 # ys \<noteq> []" "xs @ e2 # ys \<noteq> []" by simp_all
  show ?thesis
    using degenerate_bestAbility[OF ne(1) False, of ALPHA b] degenerate_bestAbility[OF ne(2) False, of ALPHA b]
    by simp
next
  case True
  then have lt: "xmin < xmax" and g: "2 \<le> g" and r: "1 < g" and g0: "0 < g" by simp_all
  have ne: "xs @ e1 # ys \<noteq> []" "xs @ e2 # ys \<noteq> []" by simp_all
  let ?gp = "gridPoint xmin xmax g"
  let ?F1 = "\<lambda>i. realLogPosterior (xs @ e1 # ys) b xmin xmax (?gp i)"
  let ?F2 = "\<lambda>i. realLogPosterior (xs @ e2 # ys) b xmin xmax (?gp i)"
  have diff: "?F2 i - ?F1 i = ln (realLikelihood (?gp i) e2) - ln (realLikelihood (?gp i) e1)"
    if "0 < i \<and> i < g" for i
  proof -
    have "max (realLikelihood (?gp i) e1) epsilon = realLikelihood (?gp i) e1"
         "max (realLikelihood (?gp i) e2) epsilon = realLikelihood (?gp i) e2"
      using assms(3) that by (simp_all add: max_absorb1)
    then show ?thesis by (simp add: realLogPosterior_def realLogLikelihood_insert)
  qed
  have incr: "\<forall>i j. 1 \<le> i \<and> i \<le> j \<and> j < g \<longrightarrow> ?F2 i - ?F1 i \<le> ?F2 j - ?F1 j"
  proof (intro allI impI)
    fix i j assume ij: "1 \<le> i \<and> i \<le> j \<and> j < g"
    then have a: "0 < i \<and> i < g" "0 < j \<and> j < g" "i \<le> j" by simp_all
    have "?gp i \<le> ?gp j" using gridPoint_mono[OF lt g0 a(3)] .
    from ln_likelihood_difference_monotone[OF assms(1,2) this]
    show "?F2 i - ?F1 i \<le> ?F2 j - ?F1 j" unfolding diff[OF a(1)] diff[OF a(2)] .
  qed
  have k: "snd (maxItem (map (\<lambda>i. (Fin (?F1 i), i)) [1 ..< g]))
        \<le> snd (maxItem (map (\<lambda>i. (Fin (?F2 i), i)) [1 ..< g]))"
    using argmax_monotone[OF r incr] .
  show ?thesis
    unfolding bestAbility_grid[OF ne(1) lt g] bestAbility_grid[OF ne(2) lt g]
    using gridPoint_mono[OF lt g0 k] by simp
qed

lemma bump_sym:
  "realSigmoid z - realSigmoid (z - 1) = realSigmoid (1 - z) - realSigmoid (1 - z - 1)"
  unfolding realSigmoid_diff_factor by simp

lemma likelihood_not_floored:
  assumes "- 5 \<le> x - level e" "x - level e \<le> 5"
  shows "epsilon \<le> realLikelihood x e"
proof -
  have small: "epsilon \<le> 1 / (4 * (1 + 3 ^ 5))" "epsilon \<le> 1 / (1 + 3 ^ 5)"
    by (simp_all add: epsilon_def)
  show ?thesis
  proof (cases "level e = predictedMaxScore e")
    case True
    have "1 / (1 + 3 ^ 5) \<le> realSigmoid (x - level e)"
      using assms(1) by (intro realSigmoid_lower) simp
    then show ?thesis using True small(2) by (simp add: realLikelihood_def)
  next
    case False
    let ?z = "x - level e"
    have "1 / (4 * (1 + 3 ^ 5)) \<le> realSigmoid ?z - realSigmoid (?z - 1)"
    proof (cases "?z \<le> 1")
      case True
      then show ?thesis using assms(1) by (intro bump_lower) simp_all
    next
      case False
      then have "1 / (4 * (1 + 3 ^ 5)) \<le> realSigmoid (1 - ?z) - realSigmoid (1 - ?z - 1)"
        using assms(2) by (intro bump_lower) simp_all
      then show ?thesis using bump_sym[of ?z] by simp
    qed
    then show ?thesis using False small(1) by (simp add: realLikelihood_def diff_diff_eq)
  qed
qed

text \<open>In exact arithmetic the three conditions of C8 hold when the level is raised from a
  level other than \<open>predictedMaxScore\<close> and the floor is not reached.\<close>

lemma raised_level_conditions:
  assumes lv: "level e1 < level e2" and ne1: "level e1 \<noteq> predictedMaxScore e1"
    and fl: "\<forall>i. 0 < i \<and> i < g \<longrightarrow>
           epsilon \<le> realLikelihood (gridPoint xmin xmax g i) e1
         \<and> epsilon \<le> realLikelihood (gridPoint xmin xmax g i) e2"
    and lt: "xmin < xmax" and g0: "0 < g"
  shows "\<forall>j\<le>g. isFinite (logPosteriors (estimateAbilityByGridSearchMAP (xs @ e1 # ys) ALPHA (Fin b) (Fin xmin) (Fin xmax) g) ! j)
              \<longleftrightarrow> isFinite (logPosteriors (estimateAbilityByGridSearchMAP (xs @ e2 # ys) ALPHA (Fin b) (Fin xmin) (Fin xmax) g) ! j)"
    and "\<forall>i j a a' c c'. i < j \<and> j \<le> g
           \<and> logPosteriors (estimateAbilityByGridSearchMAP (xs @ e1 # ys) ALPHA (Fin b) (Fin xmin) (Fin xmax) g) ! i = Fin a
           \<and> logPosteriors (estimateAbilityByGridSearchMAP (xs @ e1 # ys) ALPHA (Fin b) (Fin xmin) (Fin xmax) g) ! j = Fin a'
           \<and> logPosteriors (estimateAbilityByGridSearchMAP (xs @ e2 # ys) ALPHA (Fin b) (Fin xmin) (Fin xmax) g) ! i = Fin c
           \<and> logPosteriors (estimateAbilityByGridSearchMAP (xs @ e2 # ys) ALPHA (Fin b) (Fin xmin) (Fin xmax) g) ! j = Fin c'
           \<longrightarrow> c - a \<le> c' - a'"
    and "\<forall>i j. i < j \<and> j \<le> g \<longrightarrow>
           n_le (abilities (estimateAbilityByGridSearchMAP (xs @ e1 # ys) ALPHA (Fin b) (Fin xmin) (Fin xmax) g) ! i)
                (abilities (estimateAbilityByGridSearchMAP (xs @ e1 # ys) ALPHA (Fin b) (Fin xmin) (Fin xmax) g) ! j)"
proof -
  have ne: "xs @ e1 # ys \<noteq> []" "xs @ e2 # ys \<noteq> []" by simp_all
  let ?rA = "estimateAbilityByGridSearchMAP (xs @ e1 # ys) ALPHA (Fin b) (Fin xmin) (Fin xmax) g"
  let ?rB = "estimateAbilityByGridSearchMAP (xs @ e2 # ys) ALPHA (Fin b) (Fin xmin) (Fin xmax) g"
  let ?gp = "gridPoint xmin xmax g"
  let ?F1 = "\<lambda>i. realLogPosterior (xs @ e1 # ys) b xmin xmax (?gp i)"
  let ?F2 = "\<lambda>i. realLogPosterior (xs @ e2 # ys) b xmin xmax (?gp i)"
  have pA: "logPosteriors ?rA ! i = (if 0 < i \<and> i < g then Fin (?F1 i) else NInf)" if "i \<le> g" for i
    using logPosteriors_nth[OF ne(1) g0 that lt] .
  have pB: "logPosteriors ?rB ! i = (if 0 < i \<and> i < g then Fin (?F2 i) else NInf)" if "i \<le> g" for i
    using logPosteriors_nth[OF ne(2) g0 that lt] .
  show "\<forall>j\<le>g. isFinite (logPosteriors ?rA ! j) \<longleftrightarrow> isFinite (logPosteriors ?rB ! j)"
    using pA pB by simp
  have diff: "?F2 i - ?F1 i = ln (realLikelihood (?gp i) e2) - ln (realLikelihood (?gp i) e1)"
    if "0 < i \<and> i < g" for i
  proof -
    have "max (realLikelihood (?gp i) e1) epsilon = realLikelihood (?gp i) e1"
         "max (realLikelihood (?gp i) e2) epsilon = realLikelihood (?gp i) e2"
      using fl that by (simp_all add: max_absorb1)
    then show ?thesis by (simp add: realLogPosterior_def realLogLikelihood_insert)
  qed
  show "\<forall>i j a a' c c'. i < j \<and> j \<le> g
           \<and> logPosteriors ?rA ! i = Fin a \<and> logPosteriors ?rA ! j = Fin a'
           \<and> logPosteriors ?rB ! i = Fin c \<and> logPosteriors ?rB ! j = Fin c'
           \<longrightarrow> c - a \<le> c' - a'"
  proof (intro allI impI)
    fix i j a a' c c'
    assume h: "i < j \<and> j \<le> g
           \<and> logPosteriors ?rA ! i = Fin a \<and> logPosteriors ?rA ! j = Fin a'
           \<and> logPosteriors ?rB ! i = Fin c \<and> logPosteriors ?rB ! j = Fin c'"
    then have ij: "i \<le> g" "j \<le> g" "i \<le> j" by simp_all
    have ii: "0 < i \<and> i < g" using h pA[OF ij(1)] by (auto split: if_splits)
    have jj: "0 < j \<and> j < g" using h pA[OF ij(2)] by (auto split: if_splits)
    have v: "a = ?F1 i" "a' = ?F1 j" "c = ?F2 i" "c' = ?F2 j"
      using h pA[OF ij(1)] pA[OF ij(2)] pB[OF ij(1)] pB[OF ij(2)] ii jj by simp_all
    have "?gp i \<le> ?gp j" using gridPoint_mono[OF lt g0 ij(3)] .
    from ln_likelihood_difference_monotone[OF lv ne1 this]
    show "c - a \<le> c' - a'" unfolding v diff[OF ii] diff[OF jj] .
  qed
  show "\<forall>i j. i < j \<and> j \<le> g \<longrightarrow> n_le (abilities ?rA ! i) (abilities ?rA ! j)"
  proof (intro allI impI)
    fix i j :: nat assume h: "i < j \<and> j \<le> g"
    then have ij: "i \<le> g" "j \<le> g" "i \<le> j" by simp_all
    have ab: "abilities ?rA = gridAbilities (Fin xmin) (Fin xmax) g"
      using bestAbility_cases(1)[OF ne(1), of ALPHA "Fin b" "Fin xmin" "Fin xmax" g] .
    show "n_le (abilities ?rA ! i) (abilities ?rA ! j)"
      unfolding ab gridAbilities_nth[OF g0 ij(1)] gridAbilities_nth[OF g0 ij(2)]
      using gridPoint_mono[OF lt g0 ij(3)] by simp
  qed
qed


subsection \<open>Bounds for e\<close>

lemma e_lower: "27 / 10 \<le> exp (1::real)"
proof -
  have "1 + 1 / 8 + (1 / 8)\<^sup>2 / 2 \<le> exp (1 / 8 :: real)"
    by (intro exp_lower_Taylor_quadratic) simp
  then have "145 / 128 \<le> exp (1 / 8 :: real)" by (simp add: power2_eq_square)
  then have "(145 / 128) ^ 8 \<le> exp (1 / 8 :: real) ^ 8" by (intro power_mono) simp_all
  moreover have "exp (1 / 8 :: real) ^ 8 = exp 1"
    using exp_of_nat_mult[of 8 "1 / 8 :: real"] by simp
  moreover have "(27 / 10 :: real) \<le> (145 / 128) ^ 8" by (simp add: field_simps)
  ultimately show ?thesis by linarith
qed

lemma e_upper: "exp (1::real) \<le> 276 / 100"
proof -
  have "exp (1 / 32 :: real) \<le> 1 + 1 / 32 + (1 / 32)\<^sup>2"
    by (intro exp_bound) simp_all
  then have "exp (1 / 32 :: real) \<le> 1057 / 1024" by (simp add: power2_eq_square)
  then have "exp (1 / 32 :: real) ^ 32 \<le> (1057 / 1024) ^ 32" by (intro power_mono) simp_all
  moreover have "exp (1 / 32 :: real) ^ 32 = exp 1"
    using exp_of_nat_mult[of 32 "1 / 32 :: real"] by simp
  moreover have "(1057 / 1024 :: real) ^ 32 \<le> 276 / 100" by (simp add: field_simps)
  ultimately show ?thesis by linarith
qed

lemma exp_nat_lower: "(27 / 10) ^ n \<le> exp (real n)"
proof -
  have "exp (real n) = exp 1 ^ n" using exp_of_nat_mult[of n "1::real"] by simp
  moreover have "(27 / 10) ^ n \<le> exp (1::real) ^ n" using e_lower by (intro power_mono) simp_all
  ultimately show ?thesis by simp
qed

lemma exp_nat_upper: "exp (real n) \<le> (276 / 100) ^ n"
proof -
  have "exp (real n) = exp 1 ^ n" using exp_of_nat_mult[of n "1::real"] by simp
  moreover have "exp (1::real) ^ n \<le> (276 / 100) ^ n" using e_upper by (intro power_mono) simp_all
  ultimately show ?thesis by simp
qed

lemma realSigmoid_neg_upper: "realSigmoid (- real n) \<le> 1 / (27 / 10) ^ n"
proof -
  have "(27 / 10) ^ n \<le> 1 + exp (real n)" using exp_nat_lower[of n] by simp
  then have "1 / (1 + exp (real n)) \<le> 1 / (27 / 10) ^ n"
    by (intro divide_left_mono) (simp_all add: add_pos_pos)
  then show ?thesis by (simp add: realSigmoid_def)
qed

lemma realSigmoid_neg_lower: "1 / (1 + (276 / 100) ^ n) \<le> realSigmoid (- real n)"
proof -
  have "1 + exp (real n) \<le> 1 + (276 / 100) ^ n" using exp_nat_upper[of n] by simp
  then have "1 / (1 + (276 / 100) ^ n) \<le> 1 / (1 + exp (real n))"
    by (intro divide_left_mono) (simp_all add: add_pos_pos)
  then show ?thesis by (simp add: realSigmoid_def)
qed

subsection \<open>Where raising a level lowers the estimate\<close>

lemma factor_bounds: "17 / 27 \<le> 1 - exp (- 1 :: real)" "1 - exp (- 1 :: real) \<le> 176 / 276"
proof -
  have e: "exp (- 1 :: real) = 1 / exp 1" by (simp add: exp_minus field_simps)
  have "1 / exp (1::real) \<le> 1 / (27 / 10)" using e_lower by (intro divide_left_mono) simp_all
  then show "17 / 27 \<le> 1 - exp (- 1 :: real)" unfolding e by simp
  have "1 / (276 / 100) \<le> 1 / exp (1::real)" using e_upper by (intro divide_left_mono) simp_all
  then show "1 - exp (- 1 :: real) \<le> 176 / 276" unfolding e by simp
qed

lemma floored_at_minus_30: "realSigmoid (- 30) - realSigmoid (- 30 - 1) \<le> epsilon"
proof -
  have "realSigmoid (- 30) - realSigmoid (- 30 - 1) \<le> realSigmoid (- 30)"
    using realSigmoid_pos[of "- 30 - 1"] by simp
  also have "\<dots> \<le> 1 / (27 / 10) ^ 30" using realSigmoid_neg_upper[of 30] by simp
  also have "\<dots> \<le> epsilon" by (simp add: epsilon_def field_simps)
  finally show ?thesis .
qed

lemma above_at_minus_20: "8 * epsilon < realSigmoid (- 20) - realSigmoid (- 20 - 1)"
proof -
  have s1: "1 / (1 + (276 / 100) ^ 20) \<le> realSigmoid (- 20)"
    using realSigmoid_neg_lower[of 20] by simp
  have "realSigmoid (- 21) \<le> 1 / (27 / 10) ^ 21" using realSigmoid_neg_upper[of 21] by simp
  also have "\<dots> \<le> 1 / 1000" by (simp add: field_simps)
  finally have "999 / 1000 \<le> 1 - realSigmoid (- 21)" by simp
  then have s2: "999 / 1000 \<le> realSigmoid (1 - (- 20))" using realSigmoid_neg[of "- 21"] by simp
  have p: "(0::real) \<le> 1 / (1 + (276 / 100) ^ 20)" by simp
  have m1: "(17 / 27) * (1 / (1 + (276 / 100) ^ 20)) \<le> (1 - exp (- 1)) * realSigmoid (- 20)"
    by (rule mult_mono[OF factor_bounds(1) s1]) (use factor_bounds(1) p in simp_all)
  have nn: "0 \<le> (1 - exp (- 1)) * realSigmoid (- 20)"
    using factor_bounds(1) realSigmoid_pos[of "- 20"] by (intro mult_nonneg_nonneg) simp_all
  have m2: "(17 / 27) * (1 / (1 + (276 / 100) ^ 20)) * (999 / 1000)
          \<le> (1 - exp (- 1)) * realSigmoid (- 20) * realSigmoid (1 - (- 20))"
    by (rule mult_mono[OF m1 s2 nn]) simp
  have "8 * epsilon < (17 / 27) * (1 / (1 + (276 / 100) ^ 20)) * (999 / 1000)"
    by (simp add: epsilon_def field_simps)
  then show ?thesis unfolding realSigmoid_diff_factor using m2 by linarith
qed

lemma below_at_minus_21: "realSigmoid (- 21) - realSigmoid (- 21 - 1) < 8 * epsilon"
proof -
  have s1: "realSigmoid (- 21) \<le> 1 / (27 / 10) ^ 21" using realSigmoid_neg_upper[of 21] by simp
  have s2: "realSigmoid (1 - (- 21)) \<le> 1" using realSigmoid_less_one[of "1 - (- 21)"] by simp
  have c0: "0 \<le> 1 - exp (- 1 :: real)" using factor_bounds(1) by simp
  have m1: "(1 - exp (- 1)) * realSigmoid (- 21) \<le> (176 / 276) * (1 / (27 / 10) ^ 21)"
    by (rule mult_mono[OF factor_bounds(2) s1]) (use realSigmoid_pos[of "- 21"] in \<open>simp_all add: less_imp_le\<close>)
  have m2: "(1 - exp (- 1)) * realSigmoid (- 21) * realSigmoid (1 - (- 21))
          \<le> (176 / 276) * (1 / (27 / 10) ^ 21) * 1"
    by (rule mult_mono[OF m1 s2]) (use realSigmoid_pos[of "1 - (- 21)"] in \<open>simp_all add: less_imp_le\<close>)
  have "(176 / 276) * (1 / (27 / 10) ^ 21) * 1 < 8 * epsilon"
    by (simp add: epsilon_def field_simps)
  then show ?thesis unfolding realSigmoid_diff_factor using m2 by linarith
qed

lemma prior_difference:
  "realLogPrior 5 (- 40) (- 10) (- 30) = realLogPrior 5 (- 40) (- 10) (- 20) + 3 * ln 2"
proof -
  have "ln (20::real) = ln 2 + ln 10" using ln_mult[of "2::real" 10] by simp
  then show ?thesis by (simp add: realLogPrior_def)
qed

lemma ln_8_epsilon: "ln (8 * epsilon) = ln epsilon + 3 * ln 2"
proof -
  have "ln (8::real) = 3 * ln 2" using ln_realpow[of "2::real" 3] by simp
  moreover have "epsilon \<noteq> 0" by (simp add: epsilon_def)
  ultimately show ?thesis using ln_mult[of "8::real" epsilon] by simp
qed

lemma level_0_prefers_minus_20:
  "realLogPosterior [\<lparr> level = 0, predictedMaxScore = 4 \<rparr>] 5 (- 40) (- 10) (- 30)
     < realLogPosterior [\<lparr> level = 0, predictedMaxScore = 4 \<rparr>] 5 (- 40) (- 10) (- 20)"
proof -
  let ?e = "\<lparr> level = 0, predictedMaxScore = 4 \<rparr>"
  have a: "realLikelihood (- 30) ?e = realSigmoid (- 30) - realSigmoid (- 30 - 1)"
    and b: "realLikelihood (- 20) ?e = realSigmoid (- 20) - realSigmoid (- 20 - 1)"
    by (simp_all add: realLikelihood_def)
  have "max (realLikelihood (- 30) ?e) epsilon = epsilon"
    unfolding a using floored_at_minus_30 by (simp add: max_absorb2)
  then have l30: "ln (max (realLikelihood (- 30) ?e) epsilon) + 3 * ln 2 = ln (8 * epsilon)"
    by (simp add: ln_8_epsilon)
  have "8 * epsilon < max (realLikelihood (- 20) ?e) epsilon"
    unfolding b using above_at_minus_20 by (simp add: less_max_iff_disj)
  then have "ln (8 * epsilon) < ln (max (realLikelihood (- 20) ?e) epsilon)"
    by (intro ln_less_cancel_iff[THEN iffD2]) (simp_all add: less_max_iff_disj)
  then show ?thesis
    using l30 unfolding realLogPosterior_def realLogLikelihood_def prior_difference by simp
qed

lemma level_1_prefers_minus_30:
  "realLogPosterior [\<lparr> level = 1, predictedMaxScore = 4 \<rparr>] 5 (- 40) (- 10) (- 20)
     < realLogPosterior [\<lparr> level = 1, predictedMaxScore = 4 \<rparr>] 5 (- 40) (- 10) (- 30)"
proof -
  let ?e = "\<lparr> level = 1, predictedMaxScore = 4 \<rparr>"
  have b: "realLikelihood (- 20) ?e = realSigmoid (- 21) - realSigmoid (- 21 - 1)"
    by (simp add: realLikelihood_def)
  have "0 < max (realLikelihood (- 20) ?e) epsilon" by (simp add: less_max_iff_disj)
  moreover have "max (realLikelihood (- 20) ?e) epsilon < 8 * epsilon"
    unfolding b using below_at_minus_21 by simp
  ultimately have "ln (max (realLikelihood (- 20) ?e) epsilon) < ln (8 * epsilon)"
    by (intro ln_less_cancel_iff[THEN iffD2]) simp_all
  moreover have "ln epsilon \<le> ln (max (realLikelihood (- 30) ?e) epsilon)"
    by (intro ln_mono) simp_all
  ultimately show ?thesis
    unfolding realLogPosterior_def realLogLikelihood_def prior_difference ln_8_epsilon by simp
qed

lemma gridPoint_counterexample:
  "gridPoint (- 40) (- 10) 3 (Suc 0) = - 30" "gridPoint (- 40) (- 10) 3 2 = - 20"
  by (simp_all add: gridPoint_def)


lemma posterior_caller_domain:
  assumes "0 < x" "x < 4"
  shows "realLogPosterior [e] 5 0 4 x
           = ln (max (realLikelihood x e) epsilon * (x * (4 - x) ^ 4)) + (ln 6 - 5 * ln 4)"
proof -
  have m: "0 < max (realLikelihood x e) epsilon" by (simp add: less_max_iff_disj)
  have p: "0 < (4 - x) ^ 4" using assms by simp
  have "ln (max (realLikelihood x e) epsilon * (x * (4 - x) ^ 4))
          = ln (max (realLikelihood x e) epsilon) + (ln x + ln ((4 - x) ^ 4))"
    using m p assms by (simp add: ln_mult)
  also have "ln ((4 - x) ^ 4) = 4 * ln (4 - x)" using assms ln_realpow[of "4 - x" 4] by simp
  finally show ?thesis
    by (simp add: realLogPosterior_def realLogLikelihood_def realLogPrior_def)
qed

lemma posterior_caller_domain_less:
  assumes "0 < x" "x < 4" "0 < y" "y < 4"
    and "max (realLikelihood x e) epsilon * (x * (4 - x) ^ 4)
           < max (realLikelihood y e) epsilon * (y * (4 - y) ^ 4)"
  shows "realLogPosterior [e] 5 0 4 x < realLogPosterior [e] 5 0 4 y"
proof -
  have "0 < max (realLikelihood x e) epsilon * (x * (4 - x) ^ 4)"
    using assms(1,2) by (intro mult_pos_pos) (simp_all add: less_max_iff_disj)
  then have "ln (max (realLikelihood x e) epsilon * (x * (4 - x) ^ 4))
           < ln (max (realLikelihood y e) epsilon * (y * (4 - y) ^ 4))"
    using assms(5) by (intro ln_less_cancel_iff[THEN iffD2]) simp_all
  then show ?thesis
    unfolding posterior_caller_domain[OF assms(1,2)] posterior_caller_domain[OF assms(3,4)] by simp
qed

lemma bump_upper_nat:
  "realSigmoid (- real n) - realSigmoid (- real n - 1) \<le> (176 / 276) * (1 / (27 / 10) ^ n)"
proof -
  have s1: "realSigmoid (- real n) \<le> 1 / (27 / 10) ^ n" by (rule realSigmoid_neg_upper)
  have s2: "realSigmoid (1 - (- real n)) \<le> 1" using realSigmoid_less_one[of "1 - (- real n)"] by simp
  have m1: "(1 - exp (- 1)) * realSigmoid (- real n) \<le> (176 / 276) * (1 / (27 / 10) ^ n)"
    by (rule mult_mono[OF factor_bounds(2) s1]) (use realSigmoid_pos[of "- real n"] in \<open>simp_all add: less_imp_le\<close>)
  have m2: "(1 - exp (- 1)) * realSigmoid (- real n) * realSigmoid (1 - (- real n))
          \<le> (176 / 276) * (1 / (27 / 10) ^ n) * 1"
    by (rule mult_mono[OF m1 s2]) (use realSigmoid_pos[of "1 - (- real n)"] in \<open>simp_all add: less_imp_le\<close>)
  show ?thesis unfolding realSigmoid_diff_factor using m2 by simp
qed

lemma bump_lower_21:
  "(17 / 27) * (1 / (1 + (276 / 100) ^ 21)) * (999 / 1000)
     \<le> realSigmoid (- 21) - realSigmoid (- 21 - 1)"
proof -
  have s1: "1 / (1 + (276 / 100) ^ 21) \<le> realSigmoid (- 21)"
    using realSigmoid_neg_lower[of 21] by simp
  have "realSigmoid (- 22) \<le> 1 / (27 / 10) ^ 22" using realSigmoid_neg_upper[of 22] by simp
  also have "\<dots> \<le> 1 / 1000" by (simp add: field_simps)
  finally have "999 / 1000 \<le> 1 - realSigmoid (- 22)" by simp
  then have s2: "999 / 1000 \<le> realSigmoid (1 - (- 21))" using realSigmoid_neg[of "- 22"] by simp
  have p: "(0::real) \<le> 1 / (1 + (276 / 100) ^ 21)" by simp
  have m1: "(17 / 27) * (1 / (1 + (276 / 100) ^ 21)) \<le> (1 - exp (- 1)) * realSigmoid (- 21)"
    by (rule mult_mono[OF factor_bounds(1) s1]) (use factor_bounds(1) p in simp_all)
  have nn: "0 \<le> (1 - exp (- 1)) * realSigmoid (- 21)"
    using factor_bounds(1) realSigmoid_pos[of "- 21"] by (intro mult_nonneg_nonneg) simp_all
  have m2: "(17 / 27) * (1 / (1 + (276 / 100) ^ 21)) * (999 / 1000)
          \<le> (1 - exp (- 1)) * realSigmoid (- 21) * realSigmoid (1 - (- 21))"
    by (rule mult_mono[OF m1 s2 nn]) simp
  show ?thesis unfolding realSigmoid_diff_factor using m2 by simp
qed

lemma bump_21_above: "81 * epsilon < 32 * (realSigmoid (- 21) - realSigmoid (- 21 - 1))"
proof -
  have "81 * epsilon < 32 * ((17 / 27) * (1 / (1 + (276 / 100) ^ 21)) * (999 / 1000))"
    by (simp add: epsilon_def field_simps)
  also have "\<dots> \<le> 32 * (realSigmoid (- 21) - realSigmoid (- 21 - 1))"
    using bump_lower_21 by (intro mult_left_mono) simp_all
  finally show ?thesis .
qed

lemma bump_22_below: "32 * (realSigmoid (- 22) - realSigmoid (- 22 - 1)) < 81 * epsilon"
proof -
  have "32 * (realSigmoid (- 22) - realSigmoid (- 22 - 1)) \<le> 32 * ((176 / 276) * (1 / (27 / 10) ^ 22))"
    using bump_upper_nat[of 22] by (intro mult_left_mono) simp_all
  also have "\<dots> < 81 * epsilon"
    by (simp add: epsilon_def field_simps)
  finally show ?thesis .
qed

lemma bump_20_below:
  "3 * (realSigmoid (- 20) - realSigmoid (- 20 - 1)) < 32 * (realSigmoid (- 21) - realSigmoid (- 21 - 1))"
proof -
  have "3 * (realSigmoid (- 20) - realSigmoid (- 20 - 1)) \<le> 3 * ((176 / 276) * (1 / (27 / 10) ^ 20))"
    using bump_upper_nat[of 20] by (intro mult_left_mono) simp_all
  also have "\<dots> < 32 * ((17 / 27) * (1 / (1 + (276 / 100) ^ 21)) * (999 / 1000 :: real))"
    by (simp add: field_simps)
  also have "\<dots> \<le> 32 * (realSigmoid (- 21) - realSigmoid (- 21 - 1))"
    using bump_lower_21 by (intro mult_left_mono) simp_all
  finally show ?thesis .
qed

lemma bump_ratio_21_22:
  "81 * (realSigmoid (- 22) - realSigmoid (- 22 - 1))
     < 32 * (realSigmoid (- 21) - realSigmoid (- 21 - 1))"
proof -
  define c where "c = 1 - exp (- 1 :: real)"
  define a where "a = realSigmoid (- 22)"
  define b where "b = realSigmoid (- 21)"
  define u where "u = realSigmoid (1 - (- 22))"
  define v where "v = realSigmoid (1 - (- 21))"
  define E where "E = exp (21::real)"
  define F where "F = exp (22::real)"
  have c: "0 < c" using factor_bounds(1) by (simp add: c_def)
  have a: "0 < a" and b: "0 < b" by (simp_all add: a_def b_def realSigmoid_pos)
  have u: "u \<le> 1" using realSigmoid_less_one[of "1 - (- 22)"] by (simp add: u_def)
  have "realSigmoid (- 22) \<le> 1 / (27 / 10) ^ 22" using realSigmoid_neg_upper[of 22] by simp
  also have "\<dots> \<le> 1 / 1000" by (simp add: field_simps)
  finally have "999 / 1000 \<le> 1 - realSigmoid (- 22)" by simp
  then have v: "999 / 1000 \<le> v" using realSigmoid_neg[of "- 22"] by (simp add: v_def)
  have "(27 / 10) ^ 21 \<le> E" using exp_nat_lower[of 21] by (simp add: E_def)
  moreover have "(10::real) \<le> (27 / 10) ^ 21" by (simp add: field_simps)
  ultimately have E: "10 \<le> E" by linarith
  have "F = exp 1 * E" using exp_add[of "1::real" 21] by (simp add: E_def F_def)
  moreover have "(27 / 10) * E \<le> exp 1 * E" using e_lower E by (intro mult_right_mono) simp_all
  ultimately have F: "(27 / 10) * E \<le> F" by simp
  have ab: "a = 1 / (1 + F)" "b = 1 / (1 + E)" by (simp_all add: a_def b_def realSigmoid_def E_def F_def)
  have "81 + 81 * E < 31968 / 1000 + (31968 / 1000) * F" using E F by linarith
  then have lin: "81 * (1 + E) < (31968 / 1000) * (1 + F)" by (simp add: algebra_simps)
  have key: "81 * a < (31968 / 1000) * b"
    unfolding ab using lin E F by (simp add: field_simps)
  have "81 * (c * a * u) \<le> 81 * (c * a * 1)"
    using u c a by (intro mult_left_mono) simp_all
  also have "\<dots> = c * (81 * a)" by simp
  also have "\<dots> < c * ((31968 / 1000) * b)" using key c by (intro mult_strict_left_mono)
  also have "\<dots> = 32 * (c * b * (999 / 1000))" by simp
  also have "\<dots> \<le> 32 * (c * b * v)" using v c b by (intro mult_left_mono) simp_all
  finally show ?thesis
    unfolding realSigmoid_diff_factor a_def b_def u_def v_def c_def .
qed

lemma gridPoint_caller_domain: "gridPoint 0 4 4 k = real k"
  by (simp add: gridPoint_def)

lemma floored_compare:
  fixes e :: real
  assumes "p * e < q * b" "p * a < q * b" "0 \<le> q"
  shows "max a e * p < max b e * q"
proof -
  define M where "M = max b e"
  have "q * b \<le> q * M" unfolding M_def using assms(3) by (intro mult_left_mono) simp_all
  then have pa: "p * a < q * M" and pe: "p * e < q * M" using assms(1,2) by simp_all
  have "p * max a e < q * M"
  proof (cases "a \<le> e")
    case True
    then show ?thesis using pe by (simp add: max_absorb2)
  next
    case False
    then show ?thesis using pa by (simp add: max_absorb1)
  qed
  then show ?thesis unfolding M_def by (simp add: mult.commute)
qed

lemma floored_compare_floor:
  fixes e :: real
  assumes "0 < e" "p * a < q * e" "0 \<le> q" "p < q"
  shows "max a e * p < max b e * q"
proof -
  define M where "M = max b e"
  have "p * e < q * e" using assms(1,4) by simp
  moreover have "q * e \<le> q * M" unfolding M_def using assms(3) by (intro mult_left_mono) simp_all
  ultimately have pa: "p * a < q * M" and pe: "p * e < q * M" using assms(2) by simp_all
  have "p * max a e < q * M"
  proof (cases "a \<le> e")
    case True
    then show ?thesis using pe by (simp add: max_absorb2)
  next
    case False
    then show ?thesis using pa by (simp add: max_absorb1)
  qed
  then show ?thesis unfolding M_def by (simp add: mult.commute)
qed

lemma level_23_prefers_2:
  "realLogPosterior [\<lparr> level = 23, predictedMaxScore = 30 \<rparr>] 5 0 4 1
     < realLogPosterior [\<lparr> level = 23, predictedMaxScore = 30 \<rparr>] 5 0 4 2"
  "realLogPosterior [\<lparr> level = 23, predictedMaxScore = 30 \<rparr>] 5 0 4 3
     < realLogPosterior [\<lparr> level = 23, predictedMaxScore = 30 \<rparr>] 5 0 4 2"
proof -
  let ?e = "\<lparr> level = 23, predictedMaxScore = 30 \<rparr>"
  define b20 where "b20 = realSigmoid (- 20) - realSigmoid (- 20 - 1)"
  define b21 where "b21 = realSigmoid (- 21) - realSigmoid (- 21 - 1)"
  define b22 where "b22 = realSigmoid (- 22) - realSigmoid (- 22 - 1)"
  have l: "realLikelihood 1 ?e = b22" "realLikelihood 2 ?e = b21" "realLikelihood 3 ?e = b20"
    by (simp_all add: realLikelihood_def b20_def b21_def b22_def)
  have ep: "0 < epsilon" by (simp add: epsilon_def)
  have f: "81 * epsilon < 32 * b21" "3 * b20 < 32 * b21" "81 * b22 < 32 * b21"
    using bump_21_above bump_20_below bump_ratio_21_22
    by (simp_all add: b20_def b21_def b22_def)
  have "max b22 epsilon * 81 < max b21 epsilon * 32"
    by (rule floored_compare[OF f(1) f(3)]) simp
  then show "realLogPosterior [?e] 5 0 4 1 < realLogPosterior [?e] 5 0 4 2"
    by (intro posterior_caller_domain_less) (simp_all add: l)
  have "3 * epsilon < 32 * b21" using f(1) ep by linarith
  then have "max b20 epsilon * 3 < max b21 epsilon * 32"
    by (rule floored_compare[OF _ f(2)]) simp
  then show "realLogPosterior [?e] 5 0 4 3 < realLogPosterior [?e] 5 0 4 2"
    by (intro posterior_caller_domain_less) (simp_all add: l)
qed

lemma level_24_prefers_1:
  "realLogPosterior [\<lparr> level = 24, predictedMaxScore = 30 \<rparr>] 5 0 4 2
     < realLogPosterior [\<lparr> level = 24, predictedMaxScore = 30 \<rparr>] 5 0 4 1"
  "realLogPosterior [\<lparr> level = 24, predictedMaxScore = 30 \<rparr>] 5 0 4 3
     < realLogPosterior [\<lparr> level = 24, predictedMaxScore = 30 \<rparr>] 5 0 4 1"
proof -
  let ?e = "\<lparr> level = 24, predictedMaxScore = 30 \<rparr>"
  define b21 where "b21 = realSigmoid (- 21) - realSigmoid (- 21 - 1)"
  define b22 where "b22 = realSigmoid (- 22) - realSigmoid (- 22 - 1)"
  define b23 where "b23 = realSigmoid (- 23) - realSigmoid (- 23 - 1)"
  have l: "realLikelihood 1 ?e = b23" "realLikelihood 2 ?e = b22" "realLikelihood 3 ?e = b21"
    by (simp_all add: realLikelihood_def b21_def b22_def b23_def)
  have ep: "0 < epsilon" by (simp add: epsilon_def)
  have f: "32 * b22 < 81 * epsilon" "b21 < 8 * epsilon"
    using bump_22_below below_at_minus_21
    by (simp_all add: b21_def b22_def)
  have "max b22 epsilon * 32 < max b23 epsilon * 81"
    by (rule floored_compare_floor[OF ep f(1)]) simp_all
  then show "realLogPosterior [?e] 5 0 4 2 < realLogPosterior [?e] 5 0 4 1"
    by (intro posterior_caller_domain_less) (simp_all add: l)
  have "3 * b21 < 81 * epsilon" using f(2) ep by linarith
  then have "max b21 epsilon * 3 < max b23 epsilon * 81"
    by (rule floored_compare_floor[OF ep]) simp_all
  then show "realLogPosterior [?e] 5 0 4 3 < realLogPosterior [?e] 5 0 4 1"
    by (intro posterior_caller_domain_less) (simp_all add: l)
qed

text \<open>
  The same happens on the caller's domain \<open>[0, 4]\<close> when the levels are far above it. With 4
  grid intervals the interior grid points are \<open>1\<close>, \<open>2\<close> and \<open>3\<close>, with prior weights
  \<open>81 : 32 : 3\<close>. For the single evaluation \<open>23 of 30\<close> the likelihood at \<open>2\<close> is above
  \<open>81/32\<close> floors, so \<open>bestAbility = 2\<close>; for \<open>24 of 30\<close> the likelihood at \<open>2\<close> is below
  \<open>81/32\<close> floors and the prior decides, so \<open>bestAbility = 1\<close>.
\<close>

lemma level_increase_lowers_on_caller_domain:
  "bestAbility (estimateAbilityByGridSearchMAP [\<lparr> level = 23, predictedMaxScore = 30 \<rparr>]
      (Fin 2) (Fin 5) (Fin 0) (Fin 4) 4) = Fin 2
   \<and> bestAbility (estimateAbilityByGridSearchMAP [\<lparr> level = 24, predictedMaxScore = 30 \<rparr>]
      (Fin 2) (Fin 5) (Fin 0) (Fin 4) 4) = Fin 1"
proof -
  let ?e0 = "[\<lparr> level = 23, predictedMaxScore = 30 \<rparr>]"
  let ?e1 = "[\<lparr> level = 24, predictedMaxScore = 30 \<rparr>]"
  have h0: "?e0 \<noteq> []" "(0 :: real) < 4" "(2::nat) \<le> 4" by simp_all
  have h1: "?e1 \<noteq> []" "(0 :: real) < 4" "(2::nat) \<le> 4" by simp_all
  from interior_bestAbility[OF h0, of "Fin 2" 5]
  obtain k where k: "0 < k" "k < 4"
      "bestAbility (estimateAbilityByGridSearchMAP ?e0 (Fin 2) (Fin 5) (Fin 0) (Fin 4) 4)
         = Fin (gridPoint 0 4 4 k)"
      "\<forall>j. 0 < j \<and> j < 4 \<longrightarrow>
         realLogPosterior ?e0 5 0 4 (gridPoint 0 4 4 j)
           \<le> realLogPosterior ?e0 5 0 4 (gridPoint 0 4 4 k)"
    by blast
  have "k = 1 \<or> k = 2 \<or> k = 3" using k(1,2) by auto
  moreover have "k \<noteq> 1"
  proof
    assume "k = 1"
    then have "realLogPosterior ?e0 5 0 4 2 \<le> realLogPosterior ?e0 5 0 4 1"
      using k(4)[rule_format, of 2] by (simp add: gridPoint_caller_domain)
    then show False using level_23_prefers_2(1) by simp
  qed
  moreover have "k \<noteq> 3"
  proof
    assume "k = 3"
    then have "realLogPosterior ?e0 5 0 4 2 \<le> realLogPosterior ?e0 5 0 4 3"
      using k(4)[rule_format, of 2] by (simp add: gridPoint_caller_domain)
    then show False using level_23_prefers_2(2) by simp
  qed
  ultimately have b0: "bestAbility (estimateAbilityByGridSearchMAP ?e0 (Fin 2) (Fin 5) (Fin 0) (Fin 4) 4)
      = Fin 2"
    using k(3) by (auto simp: gridPoint_caller_domain)
  from interior_bestAbility[OF h1, of "Fin 2" 5]
  obtain m where m: "0 < m" "m < 4"
      "bestAbility (estimateAbilityByGridSearchMAP ?e1 (Fin 2) (Fin 5) (Fin 0) (Fin 4) 4)
         = Fin (gridPoint 0 4 4 m)"
      "\<forall>j. 0 < j \<and> j < 4 \<longrightarrow>
         realLogPosterior ?e1 5 0 4 (gridPoint 0 4 4 j)
           \<le> realLogPosterior ?e1 5 0 4 (gridPoint 0 4 4 m)"
    by blast
  have "m = 1 \<or> m = 2 \<or> m = 3" using m(1,2) by auto
  moreover have "m \<noteq> 2"
  proof
    assume "m = 2"
    then have "realLogPosterior ?e1 5 0 4 1 \<le> realLogPosterior ?e1 5 0 4 2"
      using m(4)[rule_format, of 1] by (simp add: gridPoint_caller_domain)
    then show False using level_24_prefers_1(1) by simp
  qed
  moreover have "m \<noteq> 3"
  proof
    assume "m = 3"
    then have "realLogPosterior ?e1 5 0 4 1 \<le> realLogPosterior ?e1 5 0 4 3"
      using m(4)[rule_format, of 1] by (simp add: gridPoint_caller_domain)
    then show False using level_24_prefers_1(2) by simp
  qed
  ultimately have b1: "bestAbility (estimateAbilityByGridSearchMAP ?e1 (Fin 2) (Fin 5) (Fin 0) (Fin 4) 4)
      = Fin 1"
    using m(3) by (auto simp: gridPoint_caller_domain)
  show ?thesis unfolding b0 b1 by simp
qed

text \<open>
  Without the floor, the claim as stated also fails when the level that is raised is the
  item's \<open>predictedMaxScore\<close>: the likelihood then changes from the sigmoid, which increases
  with the ability, to the difference of two sigmoids, which decreases beyond the level. The
  code does not bound the level by \<open>predictedMaxScore\<close>.
\<close>

lemma sigmoid_4_bounds: "9 / 10 \<le> realSigmoid 4" "realSigmoid (- 4) \<le> 1 / 50"
proof -
  have "realSigmoid (- 4) \<le> 1 / (27 / 10) ^ 4" using realSigmoid_neg_upper[of 4] by simp
  also have "\<dots> \<le> 1 / 50" by (simp add: field_simps)
  finally show u: "realSigmoid (- 4) \<le> 1 / 50" .
  then show "9 / 10 \<le> realSigmoid 4" using realSigmoid_neg[of 4] by simp
qed

lemma bump_1_lower: "1 / 8 \<le> realSigmoid 1 - realSigmoid (1 - 1)"
proof -
  have "realSigmoid (- 1) \<le> 1 / (27 / 10) ^ 1" using realSigmoid_neg_upper[of 1] by simp
  then have "17 / 27 \<le> realSigmoid 1" using realSigmoid_neg[of 1] by simp
  moreover have "realSigmoid 0 = 1 / 2" by (simp add: realSigmoid_def)
  ultimately show ?thesis by simp
qed

lemma bump_5_upper: "realSigmoid 5 - realSigmoid (5 - 1) \<le> 1 / 50"
proof -
  have "realSigmoid 5 - realSigmoid 4 \<le> 1 - realSigmoid 4"
    using realSigmoid_less_one[of 5] by simp
  also have "\<dots> = realSigmoid (- 4)" by (rule realSigmoid_neg)
  also have "\<dots> \<le> 1 / 50" by (rule sigmoid_4_bounds(2))
  finally show ?thesis by simp
qed

lemma prior_difference_12:
  "realLogPrior 5 0 12 4 = realLogPrior 5 0 12 8 + 3 * ln 2"
proof -
  have "ln (4::real) = 2 * ln 2" using ln_realpow[of "2::real" 2] by simp
  moreover have "ln (8::real) = 3 * ln 2" using ln_realpow[of "2::real" 3] by simp
  ultimately show ?thesis by (simp add: realLogPrior_def)
qed

lemma level_at_max_prefers_8:
  "realLogPosterior (replicate 5 \<lparr> level = 4, predictedMaxScore = 4 \<rparr> @ [\<lparr> level = 2, predictedMaxScore = 2 \<rparr>]) 5 0 12 4
     < realLogPosterior (replicate 5 \<lparr> level = 4, predictedMaxScore = 4 \<rparr> @ [\<lparr> level = 2, predictedMaxScore = 2 \<rparr>]) 5 0 12 8"
proof -
  let ?m = "\<lparr> level = 4, predictedMaxScore = 4 \<rparr>"
  let ?e = "\<lparr> level = 2, predictedMaxScore = 2 \<rparr>"
  have ll: "realLogLikelihood x (replicate 5 ?m @ [?e])
         = 5 * ln (max (realSigmoid (x - 4)) epsilon) + ln (max (realSigmoid (x - 2)) epsilon)" for x
    by (simp add: realLogLikelihood_def realLikelihood_def sum_list_replicate)
  have half: "max (realSigmoid 0) epsilon = 1 / 2"
    by (simp add: realSigmoid_def epsilon_def max_def)
  have lnhalf: "ln (1 / 2 :: real) = - ln 2" by (simp add: ln_div)
  have "max (realSigmoid 2) epsilon < 1"
    using realSigmoid_less_one[of 2] by (simp add: epsilon_def)
  then have s2: "ln (max (realSigmoid 2) epsilon) < 0"
    by (intro ln_less_zero) (simp_all add: less_max_iff_disj)
  have n: "ln ((9 / 10 :: real) ^ 6) = 6 * ln (9 / 10)" using ln_realpow[of "9 / 10 :: real" 6] by simp
  have "ln (1 / 4 :: real) < ln ((9 / 10) ^ 6)"
    by (intro ln_less_cancel_iff[THEN iffD2]) (simp_all add: field_simps)
  moreover have "ln (1 / 4 :: real) = - 2 * ln 2"
    using ln_realpow[of "2::real" 2] by (simp add: ln_div)
  ultimately have q: "- 2 * ln 2 < 6 * ln (9 / 10 :: real)" using n by simp
  have g4: "ln (9 / 10) \<le> ln (max (realSigmoid 4) epsilon)"
    using sigmoid_4_bounds(1) by (intro ln_mono) (simp_all add: le_max_iff_disj)
  have "realSigmoid 4 \<le> realSigmoid 6" by (intro realSigmoid_mono) simp
  then have "9 / 10 \<le> realSigmoid 6" using sigmoid_4_bounds(1) by simp
  then have g6: "ln (9 / 10) \<le> ln (max (realSigmoid 6) epsilon)"
    by (intro ln_mono) (simp_all add: le_max_iff_disj)
  have a0: "ln (max (realSigmoid 0) epsilon) = - ln 2" unfolding half lnhalf ..
  have l4: "realLogLikelihood 4 (replicate 5 ?m @ [?e])
         = 5 * ln (max (realSigmoid 0) epsilon) + ln (max (realSigmoid 2) epsilon)"
    using ll[of 4] by simp
  have l8: "realLogLikelihood 8 (replicate 5 ?m @ [?e])
         = 5 * ln (max (realSigmoid 4) epsilon) + ln (max (realSigmoid 6) epsilon)"
    using ll[of 8] by simp
  show ?thesis
    unfolding realLogPosterior_def l4 l8 prior_difference_12 a0
    using s2 q g4 g6 by linarith
qed

lemma level_above_max_prefers_4:
  "realLogPosterior (replicate 5 \<lparr> level = 4, predictedMaxScore = 4 \<rparr> @ [\<lparr> level = 3, predictedMaxScore = 2 \<rparr>]) 5 0 12 8
     < realLogPosterior (replicate 5 \<lparr> level = 4, predictedMaxScore = 4 \<rparr> @ [\<lparr> level = 3, predictedMaxScore = 2 \<rparr>]) 5 0 12 4"
proof -
  let ?m = "\<lparr> level = 4, predictedMaxScore = 4 \<rparr>"
  let ?e = "\<lparr> level = 3, predictedMaxScore = 2 \<rparr>"
  have ll: "realLogLikelihood x (replicate 5 ?m @ [?e])
         = 5 * ln (max (realSigmoid (x - 4)) epsilon)
           + ln (max (realSigmoid (x - 3) - realSigmoid (x - 3 - 1)) epsilon)" for x
    by (simp add: realLogLikelihood_def realLikelihood_def sum_list_replicate diff_diff_eq)
  have half: "max (realSigmoid 0) epsilon = 1 / 2"
    by (simp add: realSigmoid_def epsilon_def max_def)
  have lnhalf: "ln (1 / 2 :: real) = - ln 2" by (simp add: ln_div)
  have "max (realSigmoid 4) epsilon < 1"
    using realSigmoid_less_one[of 4] by (simp add: epsilon_def)
  then have s4: "ln (max (realSigmoid 4) epsilon) < 0"
    by (intro ln_less_zero) (simp_all add: less_max_iff_disj)
  have "epsilon \<le> 1 / 50" by (simp add: epsilon_def)
  then have "max (realSigmoid 5 - realSigmoid (5 - 1)) epsilon \<le> 1 / 50"
    by (rule max.boundedI[OF bump_5_upper])
  then have b5: "ln (max (realSigmoid 5 - realSigmoid (5 - 1)) epsilon) \<le> ln (1 / 50)"
    by (intro ln_mono) (simp_all add: less_max_iff_disj)
  have b1: "ln (1 / 8) \<le> ln (max (realSigmoid 1 - realSigmoid (1 - 1)) epsilon)"
    using bump_1_lower by (intro ln_mono) (simp_all add: le_max_iff_disj)
  have "ln (1 / 50 :: real) < ln (1 / 32)"
    by (intro ln_less_cancel_iff[THEN iffD2]) simp_all
  moreover have "ln (1 / 32 :: real) = ln (1 / 8) - 2 * ln 2"
  proof -
    have "ln (1 / 32 :: real) = ln ((1 / 8) * (1 / 4))" by simp
    also have "\<dots> = ln (1 / 8) + ln (1 / 4)" using ln_mult[of "1 / 8 :: real" "1 / 4"] by simp
    also have "ln (1 / 4 :: real) = - 2 * ln 2" using ln_realpow[of "2::real" 2] by (simp add: ln_div)
    finally show ?thesis by simp
  qed
  ultimately have q: "ln (1 / 50 :: real) < ln (1 / 8) - 2 * ln 2" by simp
  have a0: "ln (max (realSigmoid 0) epsilon) = - ln 2" unfolding half lnhalf ..
  have l4: "realLogLikelihood 4 (replicate 5 ?m @ [?e])
         = 5 * ln (max (realSigmoid 0) epsilon)
           + ln (max (realSigmoid 1 - realSigmoid (1 - 1)) epsilon)"
    using ll[of 4] by simp
  have l8: "realLogLikelihood 8 (replicate 5 ?m @ [?e])
         = 5 * ln (max (realSigmoid 4) epsilon)
           + ln (max (realSigmoid 5 - realSigmoid (5 - 1)) epsilon)"
    using ll[of 8] by simp
  show ?thesis
    unfolding realLogPosterior_def l4 l8 prior_difference_12 a0
    using s4 q b5 b1 by linarith
qed

lemma gridPoint_12: "gridPoint 0 12 3 (Suc 0) = 4" "gridPoint 0 12 3 2 = 8"
  by (simp_all add: gridPoint_def)

lemma raised_item_not_floored:
  "epsilon \<le> realLikelihood 4 \<lparr> level = 2, predictedMaxScore = 2 \<rparr>"
  "epsilon \<le> realLikelihood 8 \<lparr> level = 2, predictedMaxScore = 2 \<rparr>"
  "epsilon \<le> realLikelihood 4 \<lparr> level = 3, predictedMaxScore = 2 \<rparr>"
  "epsilon \<le> realLikelihood 8 \<lparr> level = 3, predictedMaxScore = 2 \<rparr>"
proof -
  show "epsilon \<le> realLikelihood 4 \<lparr> level = 2, predictedMaxScore = 2 \<rparr>"
    by (intro likelihood_not_floored) simp_all
  have "1 / 2 \<le> realSigmoid 6" by (intro realSigmoid_half) simp
  then show "epsilon \<le> realLikelihood 8 \<lparr> level = 2, predictedMaxScore = 2 \<rparr>"
    by (simp add: realLikelihood_def epsilon_def)
  show "epsilon \<le> realLikelihood 4 \<lparr> level = 3, predictedMaxScore = 2 \<rparr>"
    by (intro likelihood_not_floored) simp_all
  show "epsilon \<le> realLikelihood 8 \<lparr> level = 3, predictedMaxScore = 2 \<rparr>"
    by (intro likelihood_not_floored) simp_all
qed

text \<open>
  On the domain \<open>[0, 12]\<close> with 3 grid intervals the interior grid points are \<open>4\<close> and
  \<open>8\<close>. Five evaluations \<open>4 of 4\<close> and one \<open>2 of 2\<close> give \<open>bestAbility = 8\<close>; raising
  the last one to \<open>3 of 2\<close> gives \<open>bestAbility = 4\<close>, and the likelihood of the raised item
  is not floored at either point (\<open>raised_item_not_floored\<close>).
\<close>

lemma level_increase_above_max_lowers:
  "bestAbility (estimateAbilityByGridSearchMAP
      (replicate 5 \<lparr> level = 4, predictedMaxScore = 4 \<rparr> @ [\<lparr> level = 2, predictedMaxScore = 2 \<rparr>])
      (Fin 2) (Fin 5) (Fin 0) (Fin 12) 3) = Fin 8
   \<and> bestAbility (estimateAbilityByGridSearchMAP
      (replicate 5 \<lparr> level = 4, predictedMaxScore = 4 \<rparr> @ [\<lparr> level = 3, predictedMaxScore = 2 \<rparr>])
      (Fin 2) (Fin 5) (Fin 0) (Fin 12) 3) = Fin 4"
proof -
  let ?e0 = "replicate 5 \<lparr> level = 4, predictedMaxScore = 4 \<rparr> @ [\<lparr> level = 2, predictedMaxScore = 2 \<rparr>]"
  let ?e1 = "replicate 5 \<lparr> level = 4, predictedMaxScore = 4 \<rparr> @ [\<lparr> level = 3, predictedMaxScore = 2 \<rparr>]"
  have h0: "?e0 \<noteq> []" "(0 :: real) < 12" "(2::nat) \<le> 3" by simp_all
  have h1: "?e1 \<noteq> []" "(0 :: real) < 12" "(2::nat) \<le> 3" by simp_all
  from interior_bestAbility[OF h0, of "Fin 2" 5]
  obtain k where k: "0 < k" "k < 3"
      "bestAbility (estimateAbilityByGridSearchMAP ?e0 (Fin 2) (Fin 5) (Fin 0) (Fin 12) 3)
         = Fin (gridPoint 0 12 3 k)"
      "\<forall>j. 0 < j \<and> j < 3 \<longrightarrow>
         realLogPosterior ?e0 5 0 12 (gridPoint 0 12 3 j)
           \<le> realLogPosterior ?e0 5 0 12 (gridPoint 0 12 3 k)"
    by blast
  have "k = 1 \<or> k = 2" using k(1,2) by auto
  moreover have "k \<noteq> 1"
  proof
    assume "k = 1"
    then have "realLogPosterior ?e0 5 0 12 8 \<le> realLogPosterior ?e0 5 0 12 4"
      using k(4)[rule_format, of 2] by (simp add: gridPoint_12)
    then show False using level_at_max_prefers_8 by simp
  qed
  ultimately have b0: "bestAbility (estimateAbilityByGridSearchMAP ?e0 (Fin 2) (Fin 5) (Fin 0) (Fin 12) 3)
      = Fin 8"
    using k(3) by (auto simp: gridPoint_12)
  from interior_bestAbility[OF h1, of "Fin 2" 5]
  obtain m where m: "0 < m" "m < 3"
      "bestAbility (estimateAbilityByGridSearchMAP ?e1 (Fin 2) (Fin 5) (Fin 0) (Fin 12) 3)
         = Fin (gridPoint 0 12 3 m)"
      "\<forall>j. 0 < j \<and> j < 3 \<longrightarrow>
         realLogPosterior ?e1 5 0 12 (gridPoint 0 12 3 j)
           \<le> realLogPosterior ?e1 5 0 12 (gridPoint 0 12 3 m)"
    by blast
  have "m = 1 \<or> m = 2" using m(1,2) by auto
  moreover have "m \<noteq> 2"
  proof
    assume "m = 2"
    then have "realLogPosterior ?e1 5 0 12 4 \<le> realLogPosterior ?e1 5 0 12 8"
      using m(4)[rule_format, of 1] by (simp add: gridPoint_12)
    then show False using level_above_max_prefers_4 by simp
  qed
  ultimately have b1: "bestAbility (estimateAbilityByGridSearchMAP ?e1 (Fin 2) (Fin 5) (Fin 0) (Fin 12) 3)
      = Fin 4"
    using m(3) by (auto simp: gridPoint_12)
  show ?thesis by (rule conjI[OF b0 b1])
qed


section \<open>Properties of the retry loop\<close>

declare retryLoop.simps [simp del]

lemma jitter_bound:
  assumes "0 \<le> r" "r < 1" "0 < (n::nat)"
  shows "nat \<lfloor>r * real n\<rfloor> < n"
proof -
  have "r * real n < real n" using assms by simp
  then have "\<lfloor>r * real n\<rfloor> < int n" by (simp add: floor_less_iff)
  moreover have "0 \<le> \<lfloor>r * real n\<rfloor>" using assms by simp
  ultimately show ?thesis by linarith
qed

lemma sleep_now [simp]: "now (sleep d s) = now s + d"
  by (simp add: sleep_def Let_def)

lemma sleep_no_writes:
  "otherWrites s = [] \<Longrightarrow> sleep d s = s\<lparr> now := now s + d \<rparr>"
  by (simp add: sleep_def Let_def)

lemma setTimeout_in_range:
  "1 \<le> d \<Longrightarrow> d \<le> 2147483647 \<Longrightarrow> setTimeout d s = sleep d s"
  by (simp add: setTimeout_def)

text \<open>After \<open>ensureCooldown\<close> the cooldown that was read has passed, when the wait is within
  the range of the timer.\<close>

lemma ensureCooldown_waits:
  assumes "last429CooldownUntil s - now s \<le> 2147483647"
  shows "last429CooldownUntil s \<le> now (ensureCooldown s)"
  using assms by (auto simp add: ensureCooldown_def setTimeout_def)

lemma retryLoop_resolved:
  assumes "i < m" "snd (operation i) = Resolved v"
  shows "retryLoop operation rnd m b i s = (Inr v, sleep (fst (operation i)) (ensureCooldown s))"
  using assms by (subst retryLoop.simps) (simp add: Let_def)

lemma retryLoop_rate:
  assumes "i < m" "snd (operation i) = Rejected e" "isRate e"
  shows "retryLoop operation rnd m b i s =
     (let s2 = sleep (fst (operation i)) (ensureCooldown s);
          delay = rateDelay (message e) (rnd i);
          s3 = s2\<lparr> last429CooldownUntil := now s2 + delay \<rparr>
      in if i = m - 1 then (Inl e, s3) else retryLoop operation rnd m b (i + 1) (setTimeout delay s3))"
  using assms by (subst retryLoop.simps) (simp add: Let_def)

lemma retryLoop_other:
  assumes "i < m" "snd (operation i) = Rejected e" "\<not> isRate e"
  shows "retryLoop operation rnd m b i s =
     (let s2 = sleep (fst (operation i)) (ensureCooldown s)
      in if \<not> isServer e \<or> i = m - 1 then (Inl e, s2)
         else retryLoop operation rnd m b (i + 1) (setTimeout (serverDelay b i (rnd i)) s2))"
  using assms by (subst retryLoop.simps) (simp add: Let_def)

lemma retryLoop_done:
  assumes "\<not> i < m"
  shows "retryLoop operation rnd m b i s = (Inl maxRetriesExceeded, s)"
  using assms by (subst retryLoop.simps) simp

text \<open>
  Claim C5 (as amended). When attempt \<open>i\<close> fails with a rate-limit signal (status 429, or
  \<^verbatim>\<open>[429\<close> in the message): the attempt was preceded by one check of the shared cooldown, with
  a single timer for the difference when the timestamp read lay in the future, so that the
  attempt started after the timestamp read when the wait was within the range of the timer
  (2147483647 ms); the delay is the parsed \<^verbatim>\<open>retryDelay\<close> in milliseconds when one parses and is
  not zero, and 30000 otherwise, plus a jitter below 1500; the cooldown is set to the time of the
  failure plus the delay, also on the last attempt, which re-throws the error; on another
  attempt the loop sets a timer of the delay and goes on with attempt \<open>i + 1\<close>, which (for a
  delay within the range of the timer) begins when the delay has passed and, when no other run
  is going to write the cooldown, without a further wait.
\<close>

theorem rate_limited_attempt:
  assumes "i < m" and "snd (operation i) = Rejected e" and "isRate e"
    and "0 \<le> rnd i" and "rnd i < 1"
  shows "let s1 = ensureCooldown s;
             s2 = sleep (fst (operation i)) s1;
             delay = rateDelay (message e) (rnd i);
             s3 = s2\<lparr> last429CooldownUntil := now s2 + delay \<rparr>
         in s1 = (if now s < last429CooldownUntil s
                  then setTimeout (last429CooldownUntil s - now s) s else s)
          \<and> (last429CooldownUntil s - now s \<le> 2147483647 \<longrightarrow> last429CooldownUntil s \<le> now s1)
          \<and> (\<exists>jitter<1500. delay =
                (case parseRetryDelayMs (message e) of
                   Some ms \<Rightarrow> if ms \<noteq> 0 then ms else 30000
                 | None \<Rightarrow> 30000) + jitter)
          \<and> last429CooldownUntil s3 = now s2 + delay
          \<and> (i = m - 1 \<longrightarrow> retryLoop operation rnd m b i s = (Inl e, s3))
          \<and> (i \<noteq> m - 1 \<longrightarrow>
                retryLoop operation rnd m b i s
                  = retryLoop operation rnd m b (i + 1) (setTimeout delay s3)
                \<and> (delay \<le> 2147483647 \<longrightarrow> now (setTimeout delay s3) = now s2 + delay)
                \<and> (delay \<le> 2147483647 \<and> otherWrites s3 = [] \<longrightarrow>
                      ensureCooldown (setTimeout delay s3) = setTimeout delay s3))"
proof -
  let ?s1 = "ensureCooldown s"
  let ?s2 = "sleep (fst (operation i)) ?s1"
  let ?delay = "rateDelay (message e) (rnd i)"
  let ?s3 = "?s2\<lparr> last429CooldownUntil := now ?s2 + ?delay \<rparr>"
  have j: "nat \<lfloor>rnd i * 1500\<rfloor> < 1500"
    using jitter_bound[OF assms(4,5), of 1500] by simp
  have d: "\<exists>jitter<1500. ?delay =
                (case parseRetryDelayMs (message e) of
                   Some ms \<Rightarrow> if ms \<noteq> 0 then ms else 30000
                 | None \<Rightarrow> 30000) + jitter"
    unfolding rateDelay_def using j by blast
  have pos: "1 \<le> ?delay"
    by (auto simp: rateDelay_def split: option.splits)
  have c1: "?s1 = (if now s < last429CooldownUntil s
                  then setTimeout (last429CooldownUntil s - now s) s else s)"
    by (simp add: ensureCooldown_def)
  have c2: "last429CooldownUntil s - now s \<le> 2147483647 \<longrightarrow> last429CooldownUntil s \<le> now ?s1"
    using ensureCooldown_waits[of s] by blast
  have c4: "last429CooldownUntil ?s3 = now ?s2 + ?delay" by simp
  note loop = retryLoop_rate[of i m operation e rnd b s, OF assms(1-3)]
  have c5: "i = m - 1 \<longrightarrow> retryLoop operation rnd m b i s = (Inl e, ?s3)"
    unfolding loop by (simp add: Let_def)
  have c6: "i \<noteq> m - 1 \<longrightarrow>
                retryLoop operation rnd m b i s
                  = retryLoop operation rnd m b (i + 1) (setTimeout ?delay ?s3)"
    unfolding loop by (simp add: Let_def)
  have c7: "delay' \<le> 2147483647 \<longrightarrow> now (setTimeout delay' ?s3) = now ?s2 + delay'"
    if "1 \<le> delay'" for delay'
    using that by (simp add: setTimeout_def)
  have c8: "ensureCooldown (setTimeout ?delay ?s3) = setTimeout ?delay ?s3"
    if "?delay \<le> 2147483647 \<and> otherWrites ?s3 = []"
  proof -
    have "setTimeout ?delay ?s3 = ?s3\<lparr> now := now ?s3 + ?delay \<rparr>"
      using that pos by (simp add: setTimeout_in_range sleep_no_writes)
    then show ?thesis by (simp add: ensureCooldown_def)
  qed
  show ?thesis
    unfolding Let_def using c1 c2 d c4 c5 c6 c7[OF pos] c8 by blast
qed

lemmas string_eval =
  parseRetryDelayMs_def match_retryDelay_here_def skip_quote_def to_lower_def is_digit_def
  parseInt_def digit_value_def isRate_def isServer_def errorStatus_def

lemmas state_eval = sleep_def setTimeout_def ensureCooldown_def Let_def

text \<open>The hypotheses of C5 hold for a first attempt that fails with status 429 and the hint
  \<^verbatim>\<open>retryDelay:32s\<close>: with \<^verbatim>\<open>Math.random() = 0.5\<close> the delay is \<open>32000 + 750\<close>; the run waits
  50 ms for the cooldown, the operation takes 100 ms, and attempt 1 starts at 32900.\<close>

theorem rate_limited_attempt_witness:
  "(0::nat) < 4
   \<and> isRate \<lparr> status = Some 429, message = ''retryDelay:32s'' \<rparr>
   \<and> retryLoop (\<lambda>i. (100, Rejected \<lparr> status = Some 429, message = ''retryDelay:32s'' \<rparr> :: nat settled))
         (\<lambda>i. 1 / 2) 4 1200 0 \<lparr> now = 0, last429CooldownUntil = 50, otherWrites = [] \<rparr>
       = retryLoop (\<lambda>i. (100, Rejected \<lparr> status = Some 429, message = ''retryDelay:32s'' \<rparr>))
         (\<lambda>i. 1 / 2) 4 1200 1 \<lparr> now = 32900, last429CooldownUntil = 32900, otherWrites = [] \<rparr>"
proof -
  let ?e = "\<lparr> status = Some 429, message = ''retryDelay:32s'' \<rparr>"
  let ?op = "\<lambda>i::nat. (100::nat, Rejected ?e :: nat settled)"
  have h: "(0::nat) < 4" "snd (?op 0) = Rejected ?e" "isRate ?e" "(0::real) \<le> (\<lambda>i::nat. 1 / 2) 0"
      "(\<lambda>i::nat. 1 / 2 :: real) 0 < 1"
    by (simp_all add: string_eval)
  have d: "rateDelay ''retryDelay:32s'' (1 / 2) = 32750"
    by (simp add: rateDelay_def string_eval)
  show ?thesis
    using rate_limited_attempt[OF h, where b = 1200
        and s = "\<lparr> now = 0, last429CooldownUntil = 50, otherWrites = [] \<rparr>"] h(1,3)
    by (simp add: d state_eval)
qed

text \<open>
  Claim C5 as stated fails on a hint of zero seconds: the message
  \<^verbatim>\<open>[429 Too Many Requests] "retryDelay":"0s"\<close> parses to 0 ms, but
  \<^verbatim>\<open>parseRetryDelayMs(msg) || 30_000\<close> is then 30000: with a jitter of 0 the cooldown is set
  to \<open>now + 30000\<close>, not to \<open>now + 0\<close>.
\<close>

theorem zero_retryDelay_counterexample:
  "parseRetryDelayMs (''[429 Too Many Requests] '' @ [CHR 0x22] @ ''retryDelay'' @ [CHR 0x22] @ '':''
                        @ [CHR 0x22] @ ''0s'' @ [CHR 0x22]) = Some 0
   \<and> retryWithBackoff
        (\<lambda>i. (0, Rejected \<lparr> status = Some 429,
                 message = ''[429 Too Many Requests] '' @ [CHR 0x22] @ ''retryDelay'' @ [CHR 0x22] @ '':''
                        @ [CHR 0x22] @ ''0s'' @ [CHR 0x22] \<rparr>))
        (\<lambda>i. 0) 1 1200 \<lparr> now = 0, last429CooldownUntil = 0, otherWrites = [] \<rparr>
     = (Inl \<lparr> status = Some 429,
                 message = ''[429 Too Many Requests] '' @ [CHR 0x22] @ ''retryDelay'' @ [CHR 0x22] @ '':''
                        @ [CHR 0x22] @ ''0s'' @ [CHR 0x22] \<rparr> :: js_error + nat,
        \<lparr> now = 0, last429CooldownUntil = 30000, otherWrites = [] \<rparr>)"
  by (simp add: retryWithBackoff_def retryLoop.simps[of _ _ _ _ 0] rateDelay_def state_eval string_eval)

text \<open>
  The wait for the cooldown is a single timer and the cooldown is not read again. When
  another run extends the cooldown during the wait (here at time 50, until 5000), the attempt
  starts at time 100 although the cooldown has not passed.
\<close>

lemma cooldown_extended_during_wait:
  "ensureCooldown \<lparr> now = 0, last429CooldownUntil = 100, otherWrites = [(50, 5000)] \<rparr>
     = \<lparr> now = 100, last429CooldownUntil = 5000, otherWrites = [] \<rparr>"
  by (simp add: state_eval)

text \<open>
  A wait beyond the range of the timer ends after 1 ms: after a failure with the hint
  \<^verbatim>\<open>retryDelay:3000000s\<close> the cooldown is set to \<open>3000000000\<close>, the timer of the handler and
  the timer of \<open>ensureCooldown\<close> each last 1 ms, and the second attempt is made at time 2.
\<close>

lemma cooldown_beyond_timer_range:
  "retryWithBackoff
     (\<lambda>i. (0, if i = 0 then Rejected \<lparr> status = Some 429, message = ''retryDelay:3000000s'' \<rparr>
                else Resolved (7::nat)))
     (\<lambda>i. 0) 4 1200 \<lparr> now = 0, last429CooldownUntil = 0, otherWrites = [] \<rparr>
   = (Inr 7, \<lparr> now = 2, last429CooldownUntil = 3000000000, otherWrites = [] \<rparr>)"
proof -
  let ?e = "\<lparr> status = Some 429, message = ''retryDelay:3000000s'' \<rparr>"
  let ?op = "\<lambda>i::nat. (0::nat, if i = 0 then Rejected ?e else Resolved (7::nat))"
  have r: "isRate ?e" by (simp add: string_eval)
  have d: "rateDelay ''retryDelay:3000000s'' 0 = 3000000000"
    by (simp add: rateDelay_def string_eval)
  have first: "retryLoop ?op (\<lambda>i. 0) 4 1200 0 \<lparr> now = 0, last429CooldownUntil = 0, otherWrites = [] \<rparr>
      = retryLoop ?op (\<lambda>i. 0) 4 1200 1 \<lparr> now = 1, last429CooldownUntil = 3000000000, otherWrites = [] \<rparr>"
    using retryLoop_rate[of 0 4 ?op ?e "\<lambda>i. 0" 1200
        "\<lparr> now = 0, last429CooldownUntil = 0, otherWrites = [] \<rparr>"] r
    by (simp add: d state_eval)
  have second: "retryLoop ?op (\<lambda>i. 0) 4 1200 1 \<lparr> now = 1, last429CooldownUntil = 3000000000, otherWrites = [] \<rparr>
      = (Inr 7, \<lparr> now = 2, last429CooldownUntil = 3000000000, otherWrites = [] \<rparr>)"
    using retryLoop_resolved[of 1 4 ?op 7 "\<lambda>i. 0" 1200
        "\<lparr> now = 1, last429CooldownUntil = 3000000000, otherWrites = [] \<rparr>"]
    by (simp add: state_eval)
  show ?thesis unfolding retryWithBackoff_def first second ..
qed

text \<open>
  Claim C6. When attempt \<open>i\<close> fails with an error that is not a rate-limit signal: if it is not
  a server error either (the status the code derives is neither 500 nor 503), that same error is
  re-thrown at once, whatever the retry budget \<open>m\<close> and whatever later calls of the operation
  would do; a server error is re-thrown on the last attempt, and otherwise the loop sets a timer
  of \<open>baseDelay * 2 ^ i\<close> plus a jitter below 400 and goes on with attempt \<open>i + 1\<close>.
\<close>

theorem non_retryable_error_rethrown:
  assumes "i < m" and "snd (operation i) = Rejected e" and "\<not> isRate e"
    and "0 \<le> rnd i" and "rnd i < 1"
  shows "let s2 = sleep (fst (operation i)) (ensureCooldown s) in
      (\<not> isServer e \<longrightarrow>
         (\<forall>operation' rnd'. operation' i = operation i \<longrightarrow>
            retryLoop operation' rnd' m b i s = (Inl e, s2)))
    \<and> (isServer e \<and> i = m - 1 \<longrightarrow> retryLoop operation rnd m b i s = (Inl e, s2))
    \<and> (isServer e \<and> i \<noteq> m - 1 \<longrightarrow>
         (\<exists>jitter<400. retryLoop operation rnd m b i s
              = retryLoop operation rnd m b (i + 1) (setTimeout (b * 2 ^ i + jitter) s2)))"
proof -
  let ?s2 = "sleep (fst (operation i)) (ensureCooldown s)"
  have j: "nat \<lfloor>rnd i * 400\<rfloor> < 400"
    using jitter_bound[OF assms(4,5), of 400] by simp
  have fatal: "retryLoop operation' rnd' m b i s = (Inl e, ?s2)"
    if "\<not> isServer e" "operation' i = operation i" for operation' :: "nat \<Rightarrow> nat \<times> 'a settled" and rnd'
  proof -
    have "snd (operation' i) = Rejected e" using that(2) assms(2) by simp
    from retryLoop_other[of i m operation' e rnd' b s, OF assms(1) this assms(3)]
    show ?thesis using that by (simp add: Let_def)
  qed
  note loop = retryLoop_other[of i m operation e rnd b s, OF assms(1-3)]
  have last: "retryLoop operation rnd m b i s = (Inl e, ?s2)" if "isServer e \<and> i = m - 1"
    using loop that by (simp add: Let_def)
  have retry: "\<exists>jitter<400. retryLoop operation rnd m b i s
              = retryLoop operation rnd m b (i + 1) (setTimeout (b * 2 ^ i + jitter) ?s2)"
    if "isServer e \<and> i \<noteq> m - 1"
    using loop that j by (intro exI[of _ "nat \<lfloor>rnd i * 400\<rfloor>"]) (simp add: Let_def serverDelay_def)
  show ?thesis unfolding Let_def using fatal last retry by blast
qed

text \<open>The hypotheses of C6 hold for a first attempt that fails with status 400.\<close>

theorem non_retryable_error_rethrown_witness:
  "(0::nat) < 4
   \<and> \<not> isRate \<lparr> status = Some 400, message = ''Bad Request'' \<rparr>
   \<and> \<not> isServer \<lparr> status = Some 400, message = ''Bad Request'' \<rparr>
   \<and> retryLoop (\<lambda>i. (100, Rejected \<lparr> status = Some 400, message = ''Bad Request'' \<rparr>))
         (\<lambda>i. 1 / 2) 4 1200 0 \<lparr> now = 0, last429CooldownUntil = 0, otherWrites = [] \<rparr>
       = (Inl \<lparr> status = Some 400, message = ''Bad Request'' \<rparr> :: js_error + nat,
          \<lparr> now = 100, last429CooldownUntil = 0, otherWrites = [] \<rparr>)"
proof -
  let ?e = "\<lparr> status = Some 400, message = ''Bad Request'' \<rparr>"
  let ?op = "\<lambda>i::nat. (100::nat, Rejected ?e :: nat settled)"
  have h: "(0::nat) < 4" "snd (?op 0) = Rejected ?e" "\<not> isRate ?e" "(0::real) \<le> (\<lambda>i::nat. 1 / 2) 0"
      "(\<lambda>i::nat. 1 / 2 :: real) 0 < 1"
    by (simp_all add: string_eval)
  have ns: "\<not> isServer ?e" by (simp add: string_eval)
  show ?thesis
    using non_retryable_error_rethrown[OF h, where b = 1200
        and s = "\<lparr> now = 0, last429CooldownUntil = 0, otherWrites = [] \<rparr>"] h(1,3) ns
    by (simp add: state_eval)
qed

lemma retryLoop_all_fail:
  assumes "i < m"
    and "\<forall>j. i \<le> j \<and> j < m - 1 \<longrightarrow> (\<exists>e. snd (operation j) = Rejected e \<and> (isRate e \<or> isServer e))"
    and "snd (operation (m - 1)) = Rejected e"
  shows "fst (retryLoop operation rnd m b i s) = Inl e"
  using assms
proof (induction "m - 1 - i" arbitrary: i s)
  case 0
  then have i: "i = m - 1" by simp
  have rej: "snd (operation i) = Rejected e" using 0(4) i by simp
  show ?case
  proof (cases "isRate e")
    case True
    from retryLoop_rate[of i m operation e rnd b s, OF 0(2) rej True] show ?thesis
      using i by (simp add: Let_def)
  next
    case False
    from retryLoop_other[of i m operation e rnd b s, OF 0(2) rej False] show ?thesis
      using i by (simp add: Let_def)
  qed
next
  case (Suc k)
  then have i: "i < m - 1" "i \<noteq> m - 1" "i + 1 < m" by simp_all
  obtain e' where e': "snd (operation i) = Rejected e'" "isRate e' \<or> isServer e'"
    using Suc.prems(2) i(1) by blast
  have k: "k = m - 1 - (i + 1)" using Suc.hyps(2) by simp
  have rest: "\<forall>j. i + 1 \<le> j \<and> j < m - 1 \<longrightarrow> (\<exists>e. snd (operation j) = Rejected e \<and> (isRate e \<or> isServer e))"
    using Suc.prems(2) by simp
  note IH = Suc.hyps(1)[OF k i(3) rest Suc.prems(3)]
  show ?case
  proof (cases "isRate e'")
    case True
    from retryLoop_rate[of i m operation e' rnd b s, OF Suc.prems(1) e'(1) True] show ?thesis
      using i(2) IH by (simp add: Let_def)
  next
    case False
    then have "isServer e'" using e'(2) by simp
    with retryLoop_other[of i m operation e' rnd b s, OF Suc.prems(1) e'(1) False] show ?thesis
      using i(2) IH by (simp add: Let_def)
  qed
qed

text \<open>
  Claim C7 (as amended). With \<open>maxRetries = 0\<close> no attempt is made and the error
  \<^verbatim>\<open>Max retries exceeded\<close> is thrown. With \<open>maxRetries > 0\<close>, when every attempt fails (the
  attempts before the last one with errors that are retried), the error of the last attempt is
  thrown.
\<close>

theorem exhausted_retries_rethrow_last_error:
  "fst (retryWithBackoff operation rnd 0 b s) = Inl maxRetriesExceeded
   \<and> (0 < m \<and> (\<forall>j<m - 1. \<exists>e. snd (operation j) = Rejected e \<and> (isRate e \<or> isServer e))
        \<and> snd (operation (m - 1)) = Rejected e
      \<longrightarrow> fst (retryWithBackoff operation rnd m b s) = Inl e)"
proof -
  have zero: "fst (retryWithBackoff operation rnd 0 b s) = Inl maxRetriesExceeded"
    by (simp add: retryWithBackoff_def retryLoop_done)
  have all: "fst (retryWithBackoff operation rnd m b s) = Inl e"
    if "0 < m \<and> (\<forall>j<m - 1. \<exists>e. snd (operation j) = Rejected e \<and> (isRate e \<or> isServer e))
        \<and> snd (operation (m - 1)) = Rejected e"
    unfolding retryWithBackoff_def
    using retryLoop_all_fail[of 0 m operation e rnd b s] that by simp
  show ?thesis using zero all by blast
qed

text \<open>The hypotheses of C7 (amended) hold for four attempts that all fail with status 503.\<close>

theorem exhausted_retries_rethrow_last_error_witness:
  "(0::nat) < 4
   \<and> isServer \<lparr> status = Some 503, message = ''Service Unavailable'' \<rparr>
   \<and> fst (retryWithBackoff (\<lambda>i. (100, Rejected \<lparr> status = Some 503, message = ''Service Unavailable'' \<rparr>))
           (\<lambda>i. 1 / 2) 4 1200 \<lparr> now = 0, last429CooldownUntil = 0, otherWrites = [] \<rparr>)
       = (Inl \<lparr> status = Some 503, message = ''Service Unavailable'' \<rparr> :: js_error + nat)"
proof -
  let ?e = "\<lparr> status = Some 503, message = ''Service Unavailable'' \<rparr>"
  let ?op = "\<lambda>i::nat. (100::nat, Rejected ?e :: nat settled)"
  have s: "isServer ?e" by (simp add: string_eval)
  have h: "(0::nat) < 4 \<and> (\<forall>j<4 - 1. \<exists>e. snd (?op j) = Rejected e \<and> (isRate e \<or> isServer e))
        \<and> snd (?op (4 - 1)) = Rejected ?e"
    using s by simp
  show ?thesis
    using exhausted_retries_rethrow_last_error[where operation = ?op and rnd = "\<lambda>i. 1 / 2" and b = 1200
        and s = "\<lparr> now = 0, last429CooldownUntil = 0, otherWrites = [] \<rparr>" and m = 4 and e = ?e] s h
    by blast
qed

text \<open>
  Claim C7 as stated fails: when all four attempts fail with status 503, the error thrown is
  that of the last attempt, whose message is not \<^verbatim>\<open>Max retries exceeded\<close>.
\<close>

theorem max_retries_exceeded_counterexample:
  "fst (retryWithBackoff (\<lambda>i. (100, Rejected \<lparr> status = Some 503, message = ''Service Unavailable'' \<rparr>))
           (\<lambda>i. 1 / 2) 4 1200 \<lparr> now = 0, last429CooldownUntil = 0, otherWrites = [] \<rparr>)
       = (Inl \<lparr> status = Some 503, message = ''Service Unavailable'' \<rparr> :: js_error + nat)
   \<and> \<lparr> status = Some 503, message = ''Service Unavailable'' \<rparr> \<noteq> maxRetriesExceeded
   \<and> message \<lparr> status = Some 503, message = ''Service Unavailable'' \<rparr> \<noteq> ''Max retries exceeded''"
proof -
  let ?e = "\<lparr> status = Some 503, message = ''Service Unavailable'' \<rparr>"
  have s: "isServer ?e" "\<not> isRate ?e" by (simp_all add: string_eval)
  have "fst (retryLoop (\<lambda>i. (100, Rejected ?e)) (\<lambda>i. 1 / 2) 4 1200 0 \<lparr> now = 0, last429CooldownUntil = 0, otherWrites = [] \<rparr>)
          = (Inl ?e :: js_error + nat)"
    using s by (simp add: retryLoop_other Let_def)
  then show ?thesis by (simp add: retryWithBackoff_def maxRetriesExceeded_def)
qed

text \<open>What a run returns or throws depends on the operation only, not on the clock, the
  cooldown, the jitter or the base delay.\<close>

lemma retryLoop_result_independent:
  "fst (retryLoop operation rnd m b i s) = fst (retryLoop operation rnd' m b' i s')"
proof (induction "m - i" arbitrary: i s s')
  case 0
  then show ?case by (simp add: retryLoop_done)
next
  case (Suc k)
  then have i: "i < m" "k = m - (i + 1)" by simp_all
  note IH = Suc.hyps(1)[OF i(2)]
  show ?case
  proof (cases "snd (operation i)")
    case (Resolved v)
    then show ?thesis using i(1) by (simp add: retryLoop_resolved)
  next
    case (Rejected e)
    show ?thesis
    proof (cases "isRate e")
      case True
      show ?thesis
        unfolding retryLoop_rate[of i m operation e rnd b s, OF i(1) Rejected True]
                  retryLoop_rate[of i m operation e rnd' b' s', OF i(1) Rejected True]
        using IH by (simp add: Let_def)
    next
      case False
      show ?thesis
        unfolding retryLoop_other[of i m operation e rnd b s, OF i(1) Rejected False]
                  retryLoop_other[of i m operation e rnd' b' s', OF i(1) Rejected False]
        using IH by (simp add: Let_def)
    qed
  qed
qed

section \<open>Properties of the batch processor\<close>

declare chunks.simps [simp del]

lemma chunks_Nil [simp]: "chunks n [] = []"
  by (subst chunks.simps) simp

lemma concat_chunks: "0 < n \<Longrightarrow> concat (chunks n xs) = xs"
proof (induction n xs rule: chunks.induct)
  case (1 n xs)
  show ?case
  proof (cases "xs = []")
    case True
    then show ?thesis by simp
  next
    case False
    then show ?thesis using 1 by (subst chunks.simps) simp
  qed
qed

lemma successfulResults_map:
  "successfulResults (map (\<lambda>item. Resolved (f item)) batch) = List.map_filter f batch"
  by (induction batch) (auto simp: successfulResults_def List.map_filter_simps split: option.splits)

lemma runBatch_eq:
  "runBatch opts env processor n batch =
     (if batchTimerWins env n then []
      else List.map_filter (processItemWithTimeout opts env processor) batch)"
  by (simp add: runBatch_def successfulResults_map)

lemma batchResultsFrom_append:
  "batchResultsFrom opts env processor n (xs @ ys) =
     batchResultsFrom opts env processor n xs @ batchResultsFrom opts env processor (n + length xs) ys"
  by (induction xs arbitrary: n) simp_all

lemma map_filter_append: "List.map_filter f (xs @ ys) = List.map_filter f xs @ List.map_filter f ys"
  by (simp add: List.map_filter_def)

lemma map_filter_concat: "List.map_filter f (concat xss) = concat (map (List.map_filter f) xss)"
  by (induction xss) (simp_all add: map_filter_append List.map_filter_simps)

lemma batchResultsFrom_no_timeout:
  assumes "\<forall>n. \<not> batchTimerWins env n"
  shows "batchResultsFrom opts env processor n bs
           = List.map_filter (processItemWithTimeout opts env processor) (concat bs)"
  using assms
  by (induction bs arbitrary: n) (simp_all add: runBatch_eq map_filter_append List.map_filter_simps)

lemma sequentialLoop_chunks:
  assumes "0 < batchSize opts"
  shows "sequentialLoop opts env processor items (k * batchSize opts) acc =
     Some (acc @ batchResultsFrom opts env processor (k + 1) (chunks (batchSize opts) (drop (k * batchSize opts) items)))"
proof (induction "length items - k * batchSize opts" arbitrary: k acc rule: less_induct)
  case less
  let ?bs = "batchSize opts"
  show ?case
  proof (cases "k * ?bs < length items")
    case False
    then show ?thesis by (subst sequentialLoop.simps) simp
  next
    case True
    have dec: "length items - (k + 1) * ?bs < length items - k * ?bs"
      using True assms by simp
    have ne: "drop (k * ?bs) items \<noteq> []" using True by simp
    have ch: "chunks ?bs (drop (k * ?bs) items)
        = slice items (k * ?bs) (k * ?bs + ?bs) # chunks ?bs (drop ((k + 1) * ?bs) items)"
      using assms ne by (subst chunks.simps) (simp add: slice_def add.commute)
    have bn: "k * ?bs div ?bs + 1 = k + 1" using assms by simp
    have step: "sequentialLoop opts env processor items (k * ?bs) acc =
        sequentialLoop opts env processor items ((k + 1) * ?bs)
          (acc @ runBatch opts env processor (k + 1) (slice items (k * ?bs) (k * ?bs + ?bs)))"
      using True bn by (subst sequentialLoop.simps) (simp add: Let_def add.commute)
    show ?thesis
      unfolding step less.hyps[OF dec] ch by simp
  qed
qed

lemma makeBatches_chunks:
  assumes "0 < sz"
  shows "makeBatches items sz (k * sz) acc = Some (acc @ chunks sz (drop (k * sz) items))"
proof (induction "length items - k * sz" arbitrary: k acc rule: less_induct)
  case less
  show ?case
  proof (cases "k * sz < length items")
    case False
    then show ?thesis by (subst makeBatches.simps) simp
  next
    case True
    have dec: "length items - (k + 1) * sz < length items - k * sz"
      using True assms by simp
    have ne: "drop (k * sz) items \<noteq> []" using True by simp
    have ch: "chunks sz (drop (k * sz) items)
        = slice items (k * sz) (k * sz + sz) # chunks sz (drop ((k + 1) * sz) items)"
      using assms ne by (subst chunks.simps) (simp add: slice_def add.commute)
    have step: "makeBatches items sz (k * sz) acc =
        makeBatches items sz ((k + 1) * sz) (acc @ [slice items (k * sz) (k * sz + sz)])"
      using True by (subst makeBatches.simps) (simp add: add.commute)
    show ?thesis
      unfolding step less.hyps[OF dec] ch by simp
  qed
qed

lemma group_results:
  "concat (map (\<lambda>(batchItems, batchIndex). runBatch opts env processor (i + batchIndex + 1) batchItems)
       (zip grp [0 ..< length grp]))
     = batchResultsFrom opts env processor (i + 1) grp"
proof (induction grp arbitrary: i rule: rev_induct)
  case Nil
  then show ?case by simp
next
  case (snoc b bs)
  have z: "zip (bs @ [b]) [0 ..< length (bs @ [b])] = zip bs [0 ..< length bs] @ [(b, length bs)]"
    by simp
  show ?case unfolding z using snoc[of i] by (simp add: batchResultsFrom_append)
qed

lemma concurrentLoop_results:
  assumes "0 < concurrentBatches opts"
  shows "concurrentLoop opts env processor batches i acc =
     Some (acc @ batchResultsFrom opts env processor (i + 1) (drop i batches))"
proof (induction "length batches - i" arbitrary: i acc rule: less_induct)
  case less
  let ?cb = "concurrentBatches opts"
  show ?case
  proof (cases "i < length batches")
    case False
    then show ?thesis by (subst concurrentLoop.simps) simp
  next
    case True
    have dec: "length batches - (i + ?cb) < length batches - i" using True assms by simp
    let ?grp = "slice batches i (i + ?cb)"
    let ?rest = "drop (i + ?cb) batches"
    have grp: "?grp = take ?cb (drop i batches)" by (simp add: slice_def)
    have rest: "?rest = drop ?cb (drop i batches)" by (simp add: add.commute)
    have split: "drop i batches = ?grp @ ?rest"
      unfolding grp rest by (rule append_take_drop_id[symmetric])
    have step: "concurrentLoop opts env processor batches i acc =
        concurrentLoop opts env processor batches (i + ?cb)
          (acc @ batchResultsFrom opts env processor (i + 1) ?grp)"
      using True by (subst concurrentLoop.simps) (simp only: Let_def group_results if_True)
    have tail: "batchResultsFrom opts env processor (i + 1 + length ?grp) ?rest
              = batchResultsFrom opts env processor (i + ?cb + 1) ?rest"
    proof (cases "?cb \<le> length batches - i")
      case True
      then have "length ?grp = ?cb" unfolding grp by simp
      then show ?thesis by (simp add: add.commute add.left_commute)
    next
      case False
      then have "?rest = []" by simp
      then show ?thesis by simp
    qed
    have "batchResultsFrom opts env processor (i + 1) (drop i batches)
        = batchResultsFrom opts env processor (i + 1) ?grp
          @ batchResultsFrom opts env processor (i + ?cb + 1) ?rest"
      using batchResultsFrom_append[of opts env processor "i + 1" ?grp ?rest] tail
      by (simp only: split[symmetric])
    then show ?thesis unfolding step less.hyps[OF dec] by simp
  qed
qed

lemma processBatches_eq:
  assumes "0 < batchSize opts"
  shows "processBatches opts env processor items
           = Some (batchResultsFrom opts env processor 1 (chunks (batchSize opts) items))"
proof (cases "1 < concurrentBatches opts")
  case True
  then have cb: "0 < concurrentBatches opts" by simp
  show ?thesis
    using True makeBatches_chunks[OF assms, of items 0 "[]"]
      concurrentLoop_results[OF cb, of env processor "chunks (batchSize opts) items" 0 "[]"]
    by (simp add: processBatches_def processConcurrentBatches_def)
next
  case False
  then show ?thesis
    using sequentialLoop_chunks[OF assms, of env processor items 0 "[]"]
    by (simp add: processBatches_def)
qed

lemma processItemWithTimeout_Some:
  "processItemWithTimeout opts env processor item = Some v \<longleftrightarrow>
     \<not> itemTimerWins env item
     \<and> fst (retryWithBackoff (processor item) (random env item) (maxRetries opts)
              (baseRetryDelay opts) (clock env item)) = Inr (Some v)"
  by (auto simp: processItemWithTimeout_def processPromise_def split: sum.splits)

text \<open>With \<open>batchSize = 0\<close> and a non-empty list the sequential loop never returns.\<close>

lemma sequentialLoop_zero_batchSize:
  assumes "batchSize opts = 0" "i < length items"
  shows "sequentialLoop opts env processor items i acc = None"
proof (rule ccontr)
  assume "sequentialLoop opts env processor items i acc \<noteq> None"
  then obtain y where y: "sequentialLoop opts env processor items i acc = Some y" by auto
  have "\<not> (batchSize opts = 0 \<and> i < length items)"
  proof (rule sequentialLoop.raw_induct
      [where P = "\<lambda>opts env processor items i acc y. \<not> (batchSize opts = 0 \<and> i < length items)",
        OF _ y])
    fix loop opts env processor and items :: "'a list" and i allResults r
    assume IH: "\<And>opts env processor (items :: 'a list) i allResults r.
        loop opts env processor items i allResults = Some r \<Longrightarrow>
        \<not> (batchSize opts = 0 \<and> i < length items)"
      and body: "(if i < length items
         then let batch = slice items i (i + batchSize opts);
                  batchNumber = i div batchSize opts + 1
              in loop opts env processor items (i + batchSize opts)
                   (allResults @ runBatch opts env processor batchNumber batch)
         else Some allResults) = Some r"
    show "\<not> (batchSize opts = 0 \<and> i < length items)"
    proof
      assume a: "batchSize opts = 0 \<and> i < length items"
      then have lt: "i < length items" by simp
      have step: "loop opts env processor items (i + batchSize opts)
                   (allResults @ runBatch opts env processor (i div batchSize opts + 1)
                      (slice items i (i + batchSize opts))) = Some r"
        using body lt by (simp add: Let_def)
      have "\<not> (batchSize opts = 0 \<and> i + batchSize opts < length items)"
        by (rule IH[OF step])
      then show False using a by simp
    qed
  qed
  then show False using assms by simp
qed

lemma processBatches_zero_batchSize:
  assumes "batchSize opts = 0" "concurrentBatches opts \<le> 1" "items \<noteq> []"
  shows "processBatches opts env processor items = None"
  using assms sequentialLoop_zero_batchSize[of opts 0 items env processor "[]"]
  by (simp add: processBatches_def)

text \<open>So is the loop that cuts the batches of the concurrent mode.\<close>

lemma makeBatches_zero_size:
  assumes "i < length items"
  shows "makeBatches items 0 i batches = None"
proof (rule ccontr)
  assume "makeBatches items 0 i batches \<noteq> None"
  then obtain y where y: "makeBatches items 0 i batches = Some y" by auto
  have "\<not> (0 = (0::nat) \<and> i < length items)"
  proof (rule makeBatches.raw_induct
      [where P = "\<lambda>items sz i batches y. \<not> (sz = 0 \<and> i < length items)", OF _ y])
    fix mk and items :: "'a list" and sz i batches r
    assume IH: "\<And>(items :: 'a list) sz i batches r.
        mk items sz i batches = Some r \<Longrightarrow> \<not> (sz = 0 \<and> i < length items)"
      and body: "(if i < length items
         then mk items sz (i + sz) (batches @ [slice items i (i + sz)])
         else Some batches) = Some r"
    show "\<not> (sz = 0 \<and> i < length items)"
    proof
      assume a: "sz = 0 \<and> i < length items"
      then have step: "mk items sz (i + sz) (batches @ [slice items i (i + sz)]) = Some r"
        using body by simp
      have "\<not> (sz = 0 \<and> i + sz < length items)" by (rule IH[OF step])
      then show False using a by simp
    qed
  qed
  then show False using assms by simp
qed

lemma processBatches_zero_batchSize_concurrent:
  assumes "batchSize opts = 0" "items \<noteq> []" "1 < concurrentBatches opts"
  shows "processBatches opts env processor items = None"
  using assms makeBatches_zero_size[of 0 items "[]"]
  by (simp add: processBatches_def processConcurrentBatches_def)

text \<open>
  Claim C1 (as amended). With a positive batch size, \<open>processBatches\<close> returns (it never throws): the
  result is the concatenation, in the order of the batches, of what each batch contributes, the
  batches being consecutive slices of the items; a batch contributes the non-null results of its
  items in their order, or nothing when its timer wins; an item has a result \<open>v\<close> exactly when
  its timer does not win and the retried processor returns \<open>v\<close> (a thrown error, \<^verbatim>\<open>null\<close> and
  a timeout all give \<^verbatim>\<open>null\<close>), independently of the other items. When no batch timer wins,
  the result is exactly the non-null results of the items, in the order of the items.
\<close>

theorem processBatches_results:
  assumes "0 < batchSize opts"
  shows "processBatches opts env processor items
           = Some (batchResultsFrom opts env processor 1 (chunks (batchSize opts) items))
     \<and> concat (chunks (batchSize opts) items) = items
     \<and> (\<forall>n batch. runBatch opts env processor n batch =
           (if batchTimerWins env n then []
            else List.map_filter (processItemWithTimeout opts env processor) batch))
     \<and> (\<forall>item v. processItemWithTimeout opts env processor item = Some v \<longleftrightarrow>
           \<not> itemTimerWins env item
           \<and> fst (retryWithBackoff (processor item) (random env item) (maxRetries opts)
                    (baseRetryDelay opts) (clock env item)) = Inr (Some v))
     \<and> ((\<forall>n. \<not> batchTimerWins env n) \<longrightarrow>
           processBatches opts env processor items
             = Some (List.map_filter (processItemWithTimeout opts env processor) items))"
proof -
  have a: "processBatches opts env processor items
           = Some (batchResultsFrom opts env processor 1 (chunks (batchSize opts) items))"
    using processBatches_eq[OF assms] .
  have b: "concat (chunks (batchSize opts) items) = items" using concat_chunks[OF assms] .
  have c: "processBatches opts env processor items
             = Some (List.map_filter (processItemWithTimeout opts env processor) items)"
    if "\<forall>n. \<not> batchTimerWins env n"
    unfolding a using batchResultsFrom_no_timeout[OF that, of opts processor 1 "chunks (batchSize opts) items"] b
    by simp
  have d: "\<forall>n batch. runBatch opts env processor n batch =
           (if batchTimerWins env n then []
            else List.map_filter (processItemWithTimeout opts env processor) batch)"
    by (intro allI) (rule runBatch_eq)
  have e: "\<forall>item v. processItemWithTimeout opts env processor item = Some v \<longleftrightarrow>
           \<not> itemTimerWins env item
           \<and> fst (retryWithBackoff (processor item) (random env item) (maxRetries opts)
                    (baseRetryDelay opts) (clock env item)) = Inr (Some v)"
    by (intro allI) (rule processItemWithTimeout_Some)
  from c have c': "(\<forall>n. \<not> batchTimerWins env n) \<longrightarrow>
           processBatches opts env processor items
             = Some (List.map_filter (processItemWithTimeout opts env processor) items)"
    by (rule impI)
  show ?thesis by (rule conjI[OF a conjI[OF b conjI[OF d conjI[OF e c']]]])
qed

text \<open>The hypothesis of C1 holds for the default options; three items of which the second
  fails with status 400 give the results of the first and the third, in order.\<close>

theorem processBatches_results_witness:
  "0 < batchSize \<lparr> batchSize = 2, batchDelayMs = 3000, itemTimeoutMs = 180000, batchTimeoutMs = 300000,
                     maxRetries = 4, baseRetryDelay = 1200, concurrentBatches = 1 \<rparr>
   \<and> processBatches
        \<lparr> batchSize = 2, batchDelayMs = 3000, itemTimeoutMs = 180000, batchTimeoutMs = 300000,
          maxRetries = 4, baseRetryDelay = 1200, concurrentBatches = 1 \<rparr>
        \<lparr> itemTimerWins = (\<lambda>item. False), batchTimerWins = (\<lambda>n. False),
          random = (\<lambda>item a. 0), clock = (\<lambda>item. \<lparr> now = 0, last429CooldownUntil = 0, otherWrites = [] \<rparr>) \<rparr>
        (\<lambda>item a. (10, if item = 2 then Rejected \<lparr> status = Some 400, message = ''Bad Request'' \<rparr>
                           else Resolved (Some (item * 10))))
        [1, 2, 3 :: nat]
      = Some [10, 30 :: nat]"
proof -
  let ?opts = "\<lparr> batchSize = 2, batchDelayMs = 3000, itemTimeoutMs = 180000, batchTimeoutMs = 300000,
                     maxRetries = 4, baseRetryDelay = 1200, concurrentBatches = 1 \<rparr>"
  let ?env = "\<lparr> itemTimerWins = (\<lambda>item::nat. False), batchTimerWins = (\<lambda>n. False),
          random = (\<lambda>item a. 0), clock = (\<lambda>item. \<lparr> now = 0, last429CooldownUntil = 0, otherWrites = [] \<rparr>) \<rparr>"
  let ?p = "\<lambda>(item::nat) (a::nat). (10::nat, if item = 2 then Rejected \<lparr> status = Some 400, message = ''Bad Request'' \<rparr>
                           else Resolved (Some (item * 10)))"
  have h: "0 < batchSize ?opts" by simp
  have e: "\<not> isRate \<lparr> status = Some 400, message = ''Bad Request'' \<rparr>"
          "\<not> isServer \<lparr> status = Some 400, message = ''Bad Request'' \<rparr>"
    by (simp_all add: string_eval)
  have i1: "processItemWithTimeout ?opts ?env ?p 1 = Some 10"
    by (simp add: processItemWithTimeout_def processPromise_def retryWithBackoff_def retryLoop_resolved)
  have i2: "processItemWithTimeout ?opts ?env ?p 2 = None"
    using e by (simp add: processItemWithTimeout_def processPromise_def retryWithBackoff_def
        retryLoop_other Let_def)
  have i3: "processItemWithTimeout ?opts ?env ?p 3 = Some 30"
    by (simp add: processItemWithTimeout_def processPromise_def retryWithBackoff_def retryLoop_resolved)
  have "processBatches ?opts ?env ?p [1, 2, 3]
          = Some (List.map_filter (processItemWithTimeout ?opts ?env ?p) [1, 2, 3])"
    using processBatches_results[OF h, of ?env ?p "[1, 2, 3]",
        THEN conjunct2, THEN conjunct2, THEN conjunct2, THEN conjunct2] by simp
  then show ?thesis using h i1 i2 i3 by (simp add: List.map_filter_simps)
qed

text \<open>
  Claim C1 as stated (no condition on the options) fails for \<open>batchSize = 0\<close>, which the
  constructor accepts: the \<^verbatim>\<open>for\<close> loop \<^verbatim>\<open>i += this.options.batchSize\<close> never advances and
  \<open>processBatches\<close> does not return; no result is returned for a list of three items that
  would all succeed.
\<close>

theorem zero_batchSize_counterexample:
  "processBatches
     \<lparr> batchSize = 0, batchDelayMs = 3000, itemTimeoutMs = 180000, batchTimeoutMs = 300000,
       maxRetries = 4, baseRetryDelay = 1200, concurrentBatches = 1 \<rparr>
     \<lparr> itemTimerWins = (\<lambda>item. False), batchTimerWins = (\<lambda>n. False),
       random = (\<lambda>item a. 0),
       clock = (\<lambda>item. \<lparr> now = 0, last429CooldownUntil = 0, otherWrites = [] \<rparr>) \<rparr>
     (\<lambda>item a. (10, Resolved (Some (item * 10)))) [1, 2, 3 :: nat]
   = (None :: nat list option)"
  by (rule processBatches_zero_batchSize) simp_all

end
